theory Spec2Isabelle
  imports Main
begin

section \<open>Strings and byte buffers\<close>

text \<open>
  A JavaScript string is a sequence of UTF-16 code units and a Node \<open>Buffer\<close> is a
  sequence of bytes; both are lists of numbers here.  \<open>buffer.toString('latin1')\<close> and
  \<open>Buffer.from(str, 'latin1')\<close> map byte \<open>b\<close> to code unit \<open>b\<close> and back, so on the
  request body they are the identity.  \<open>asc\<close> writes an ASCII literal.
\<close>

type_synonym jsstring = "nat list"
type_synonym bytes = "nat list"

definition asc :: "string \<Rightarrow> nat list" where
  "asc s = map of_char s"

text \<open>\<open>buf.slice(a, b)\<close> for \<open>0 \<le> a\<close>: both ends are clamped to the length.\<close>

definition slice :: "'a list \<Rightarrow> nat \<Rightarrow> nat \<Rightarrow> 'a list" where
  "slice xs a b = take (b - a) (drop a xs)"

section \<open>The dat-field escaper (escapeDatField)\<close>

text \<open>\<open>.replace(/&/g, '&amp;')\<close>\<close>

fun replaceAmp :: "jsstring \<Rightarrow> jsstring" where
  "replaceAmp [] = []"
| "replaceAmp (c # cs) = (if c = 38 then asc ''&amp;'' @ replaceAmp cs else c # replaceAmp cs)"

text \<open>\<open>.replace(/</g, '&lt;')\<close>\<close>

fun replaceLt :: "jsstring \<Rightarrow> jsstring" where
  "replaceLt [] = []"
| "replaceLt (c # cs) = (if c = 60 then asc ''&lt;'' @ replaceLt cs else c # replaceLt cs)"

text \<open>
  \<open>.replace(/\r?\n/g, ' ')\<close>: scanning from the left, a CR directly followed by LF is
  one match, an LF alone is one match, and a CR followed by anything else is no match.
\<close>

fun replaceNewline :: "jsstring \<Rightarrow> jsstring" where
  "replaceNewline [] = []"
| "replaceNewline [c] = (if c = 10 then [32] else [c])"
| "replaceNewline (c # d # cs) =
     (if c = 13 \<and> d = 10 then 32 # replaceNewline cs
      else if c = 10 then 32 # replaceNewline (d # cs)
      else c # replaceNewline (d # cs))"

text \<open>
  The argument is \<open>string | null | undefined\<close>; \<open>None\<close> stands for \<open>null\<close> and
  \<open>undefined\<close>, and \<open>!text\<close> also holds of the empty string.
\<close>

definition escapeDatField :: "jsstring option \<Rightarrow> jsstring" where
  "escapeDatField text =
     (case text of
        None \<Rightarrow> []
      | Some t \<Rightarrow> if t = [] then [] else replaceNewline (replaceLt (replaceAmp t)))"

text \<open>
  What the three passes do to the original text, read in one pass: the reference the
  escaper is compared with.
\<close>

fun escapeOnePass :: "jsstring \<Rightarrow> jsstring" where
  "escapeOnePass [] = []"
| "escapeOnePass [c] =
     (if c = 38 then asc ''&amp;'' else if c = 60 then asc ''&lt;''
      else if c = 10 then [32] else [c])"
| "escapeOnePass (c # d # cs) =
     (if c = 13 \<and> d = 10 then 32 # escapeOnePass cs
      else if c = 38 then asc ''&amp;'' @ escapeOnePass (d # cs)
      else if c = 60 then asc ''&lt;'' @ escapeOnePass (d # cs)
      else if c = 10 then 32 # escapeOnePass (d # cs)
      else c # escapeOnePass (d # cs))"

section \<open>The legacy form decoder: the percent-unescaping pass\<close>

text \<open>
  \<open>parseInt(s, 16)\<close> as ECMAScript defines it: leading white space is dropped, one sign
  is read, a \<open>0x\<close>/\<open>0X\<close> prefix is dropped, and the longest prefix of hexadecimal digits
  is the number; what follows the digits is ignored.  \<open>None\<close> is \<open>NaN\<close> (no digit was
  read).  The decoder passes strings of two code units, whose value is exact.
\<close>

definition isStrWhiteSpace :: "nat \<Rightarrow> bool" where
  "isStrWhiteSpace c \<longleftrightarrow>
     c \<in> {9, 10, 11, 12, 13, 32, 160, 0x1680, 0x2028, 0x2029, 0x202F, 0x205F, 0x3000, 0xFEFF}
     \<or> (0x2000 \<le> c \<and> c \<le> 0x200A)"

definition hexDigit :: "nat \<Rightarrow> nat option" where
  "hexDigit c =
     (if 48 \<le> c \<and> c \<le> 57 then Some (c - 48)
      else if 97 \<le> c \<and> c \<le> 102 then Some (c - 87)
      else if 65 \<le> c \<and> c \<le> 70 then Some (c - 55)
      else None)"

definition hexValue :: "jsstring \<Rightarrow> nat" where
  "hexValue z = foldl (\<lambda>a c. 16 * a + (case hexDigit c of Some d \<Rightarrow> d | None \<Rightarrow> 0)) 0 z"

definition parseInt16 :: "jsstring \<Rightarrow> int option" where
  "parseInt16 s =
     (let s1 = dropWhile isStrWhiteSpace s;
          negative = (case s1 of [] \<Rightarrow> False | c # _ \<Rightarrow> c = 45);
          s2 = (case s1 of [] \<Rightarrow> [] | c # r \<Rightarrow> if c = 43 \<or> c = 45 then r else s1);
          s3 = (case s2 of
                  c # d # r \<Rightarrow> if c = 48 \<and> (d = 120 \<or> d = 88) then r else s2
                | _ \<Rightarrow> s2);
          z = takeWhile (\<lambda>c. hexDigit c \<noteq> None) s3
      in if z = [] then None
         else Some (if negative then - int (hexValue z) else int (hexValue z)))"

text \<open>
  \<open>buffer.toString('ascii', a, b)\<close>: Node clears the highest bit of every byte when it
  decodes a buffer as \<open>'ascii'\<close>.
\<close>

definition toStringAscii :: "bytes \<Rightarrow> nat \<Rightarrow> nat \<Rightarrow> jsstring" where
  "toStringAscii buffer a b = map (\<lambda>x. x mod 128) (slice buffer a b)"

text \<open>
  The \<open>while (i < buffer.length)\<close> loop of the callback; \<open>bytes\<close> is the \<open>number[]\<close> it
  pushes to.  \<open>buffer ! i\<close> is read only under \<open>i < length buffer\<close>.
\<close>

function percentLoop :: "bytes \<Rightarrow> nat \<Rightarrow> int list \<Rightarrow> int list" where
  "percentLoop buffer i bytes =
     (if i < length buffer then
        (if buffer ! i = 0x25 \<and> i + 2 < length buffer then
           (case parseInt16 (toStringAscii buffer (i + 1) (i + 3)) of
              Some byte \<Rightarrow> percentLoop buffer (i + 3) (bytes @ [byte])
            | None \<Rightarrow> percentLoop buffer (i + 1) (bytes @ [int (buffer ! i)]))
         else percentLoop buffer (i + 1) (bytes @ [int (buffer ! i)]))
      else bytes)"
  by pat_completeness auto
termination
  by (relation "measure (\<lambda>(buffer, i, bytes). length buffer - i)") auto

declare percentLoop.simps [simp del]

text \<open>\<open>Buffer.from(bytes)\<close> on an array of numbers keeps each number modulo 256.\<close>

definition bufferFrom :: "int list \<Rightarrow> bytes" where
  "bufferFrom xs = map (\<lambda>v. nat (v mod 256)) xs"

definition percentUnescape :: "bytes \<Rightarrow> bytes" where
  "percentUnescape buffer = bufferFrom (percentLoop buffer 0 [])"

text \<open>
  The same pass read as a recursion over the bytes still to be read: the reference for
  the loop.
\<close>

fun unescapeFrom :: "bytes \<Rightarrow> int list" where
  "unescapeFrom (c # h1 # h2 # rest) =
     (if c = 0x25 then
        (case parseInt16 [h1 mod 128, h2 mod 128] of
           Some byte \<Rightarrow> byte # unescapeFrom rest
         | None \<Rightarrow> int c # unescapeFrom (h1 # h2 # rest))
      else int c # unescapeFrom (h1 # h2 # rest))"
| "unescapeFrom (c # cs) = int c # unescapeFrom cs"
| "unescapeFrom [] = []"

section \<open>The legacy form decoder: the charset pass\<close>

text \<open>
  The libraries the decoder calls are parameters of the model.  \<open>iconv_decode\<close> is
  \<open>iconv.decode(buf, 'shift_jis')\<close> and \<open>he_decode\<close> is \<open>he.decode\<close>; \<open>None\<close> means
  that the call throws.  \<open>qs_unescape\<close> is \<open>QueryString.unescape(s, true)\<close>, which
  Node falls back to when a custom decoder throws.
\<close>

record lib =
  iconv_decode :: "bytes \<Rightarrow> jsstring option"
  he_decode :: "jsstring \<Rightarrow> jsstring option"
  qs_unescape :: "jsstring \<Rightarrow> jsstring"

text \<open>
  \<open>buf.toString('utf-8')\<close>: the UTF-8 decoder, which puts U+FFFD for every maximal
  ill-formed part and writes a code point above U+FFFF as a surrogate pair.
  \<open>utf8Cont n cp lo hi bs\<close> reads \<open>n\<close> more continuation bytes of the code point
  \<open>cp\<close>, the next of them in \<open>lo..hi\<close>.
\<close>

definition utf16 :: "nat \<Rightarrow> jsstring" where
  "utf16 cp =
     (if cp < 0x10000 then [cp]
      else [0xD800 + (cp - 0x10000) div 0x400, 0xDC00 + (cp - 0x10000) mod 0x400])"

function utf8Decode :: "bytes \<Rightarrow> jsstring"
  and utf8Cont :: "nat \<Rightarrow> nat \<Rightarrow> nat \<Rightarrow> nat \<Rightarrow> bytes \<Rightarrow> jsstring" where
  "utf8Decode [] = []"
| "utf8Decode (b # bs) =
     (if b < 0x80 then b # utf8Decode bs
      else if 0xC2 \<le> b \<and> b \<le> 0xDF then utf8Cont (Suc 0) (b mod 32) 0x80 0xBF bs
      else if 0xE0 \<le> b \<and> b \<le> 0xEF then
        utf8Cont (Suc (Suc 0)) (b mod 16) (if b = 0xE0 then 0xA0 else 0x80) (if b = 0xED then 0x9F else 0xBF) bs
      else if 0xF0 \<le> b \<and> b \<le> 0xF4 then
        utf8Cont (Suc (Suc (Suc 0))) (b mod 8) (if b = 0xF0 then 0x90 else 0x80) (if b = 0xF4 then 0x8F else 0xBF) bs
      else 0xFFFD # utf8Decode bs)"
| "utf8Cont 0 cp lo hi bs = utf16 cp @ utf8Decode bs"
| "utf8Cont (Suc n) cp lo hi [] = [0xFFFD]"
| "utf8Cont (Suc n) cp lo hi (b # bs) =
     (if lo \<le> b \<and> b \<le> hi then utf8Cont n (cp * 64 + b mod 64) 0x80 0xBF bs
      else 0xFFFD # utf8Decode (b # bs))"
  by pat_completeness auto
termination
  by (relation "measure (\<lambda>x. case x of Inl bs \<Rightarrow> 2 * length bs
                                    | Inr (n, cp, lo, hi, bs) \<Rightarrow> 2 * length bs + 1)") auto

text \<open>
  The \<open>for (let i = 0; i <= buffer.length; i++)\<close> loop.  \<open>buffer\<close> is the field as
  received (before unescaping) and \<open>sjis\<close> is \<open>sjisCandidateBuffer\<close>; the loop bound
  and the bytes passed through are taken from \<open>buffer\<close>, the prefix decoded from
  \<open>sjis\<close>, as in the source.
\<close>

function sjisLoop :: "lib \<Rightarrow> bytes \<Rightarrow> bytes \<Rightarrow> nat \<Rightarrow> jsstring \<Rightarrow> nat \<Rightarrow> jsstring" where
  "sjisLoop L buffer sjis i decodedStr lastDecodedIndex =
     (if i \<le> length buffer then
        (case iconv_decode L (slice sjis 0 i) of
           Some decodedPart \<Rightarrow> sjisLoop L buffer sjis (i + 1) decodedPart i
         | None \<Rightarrow>
             if i > lastDecodedIndex then
               sjisLoop L buffer sjis (i + 1)
                 (decodedStr @ utf8Decode (slice buffer lastDecodedIndex i)) i
             else sjisLoop L buffer sjis (i + 1) decodedStr lastDecodedIndex)
      else decodedStr)"
  by pat_completeness auto
termination
  by (relation "measure (\<lambda>(L, buffer, sjis, i, d, l). Suc (length buffer) - i)") auto

declare sjisLoop.simps [simp del]

text \<open>
  The callback up to \<open>str = decodedStr\<close>, and the whole callback, which hands that
  string to \<open>he.decode\<close>.  \<open>Buffer.from(str, 'latin1')\<close> keeps the low byte of each
  code unit.
\<close>

definition bufferFromLatin1 :: "jsstring \<Rightarrow> bytes" where
  "bufferFromLatin1 str = map (\<lambda>c. c mod 256) str"

definition charsetPass :: "lib \<Rightarrow> jsstring \<Rightarrow> jsstring" where
  "charsetPass L str =
     (let buffer = bufferFromLatin1 str;
          sjisCandidateBuffer = percentUnescape buffer
      in sjisLoop L buffer sjisCandidateBuffer 0 [] 0)"

definition decodeURIComponentCallback :: "lib \<Rightarrow> jsstring \<Rightarrow> jsstring option" where
  "decodeURIComponentCallback L str = he_decode L (charsetPass L str)"

text \<open>
  A strict decoder for a fragment of Shift_JIS, to run the decoder on concrete input:
  ASCII, the half-width katakana \<open>0xA1..0xDF\<close> and the katakana row with lead byte
  \<open>0x83\<close>.  It throws on every other byte and on a lead byte with no trail byte, the
  behaviour the \<open>catch\<close> branch of the loop is written for.
\<close>

fun sjisKatakanaStrict :: "bytes \<Rightarrow> jsstring option" where
  "sjisKatakanaStrict [] = Some []"
| "sjisKatakanaStrict [b] =
     (if b < 0x80 then Some [b]
      else if 0xA1 \<le> b \<and> b \<le> 0xDF then Some [0xFF61 + (b - 0xA1)]
      else None)"
| "sjisKatakanaStrict (b # t # bs) =
     (if b < 0x80 then map_option ((#) b) (sjisKatakanaStrict (t # bs))
      else if 0xA1 \<le> b \<and> b \<le> 0xDF then
        map_option ((#) (0xFF61 + (b - 0xA1))) (sjisKatakanaStrict (t # bs))
      else if b = 0x83 \<and> 0x40 \<le> t \<and> t \<le> 0x7E then
        map_option ((#) (0x30A1 + (t - 0x40))) (sjisKatakanaStrict bs)
      else if b = 0x83 \<and> 0x80 \<le> t \<and> t \<le> 0x96 then
        map_option ((#) (0x30A1 + (t - 0x41))) (sjisKatakanaStrict bs)
      else None)"

text \<open>
  The libraries for such runs: the strict fragment decoder, and \<open>he.decode\<close> as the
  identity, which it is on text without \<open>&\<close>.
\<close>

definition strictLib :: lib where
  "strictLib = \<lparr>iconv_decode = sjisKatakanaStrict, he_decode = Some, qs_unescape = (\<lambda>s. s)\<rparr>"

text \<open>
  The bytes \<open>buffer[a], ..., buffer[n - 1]\<close> of the field as received, each read alone as
  UTF-8: what the loop appends when every trial decode from index \<open>a + 1\<close> on fails.
\<close>

definition passThrough :: "bytes \<Rightarrow> nat \<Rightarrow> jsstring" where
  "passThrough buffer a = concat (map (\<lambda>b. utf8Decode [b]) (drop a buffer))"

section \<open>The legacy form decoder: splitting the body into fields\<close>

text \<open>
  \<open>querystring.parse(qs, '&', '=', {decodeURIComponent})\<close> of Node, with a custom
  decoder: the string is cut at every \<open>&\<close>; an empty piece is skipped; in a piece the
  key is what stands before the first \<open>=\<close> and the value what stands after it; every
  \<open>+\<close> is replaced by \<open>%20\<close>; a key or value that is not empty is decoded.  Each
  \<open>&\<close> counts against \<open>maxKeys\<close>, 1000 by default, and parsing stops when the count
  is used up: only the first 1000 pieces are read.
\<close>

fun splitOn :: "nat \<Rightarrow> jsstring \<Rightarrow> jsstring list" where
  "splitOn sep [] = [[]]"
| "splitOn sep (c # cs) =
     (if c = sep then [] # splitOn sep cs
      else (case splitOn sep cs of [] \<Rightarrow> [[c]] | s # ss \<Rightarrow> (c # s) # ss))"

definition plusChars :: "jsstring \<Rightarrow> jsstring" where
  "plusChars s = concat (map (\<lambda>c. if c = 43 then asc ''%20'' else [c]) s)"

definition segmentKey :: "jsstring \<Rightarrow> jsstring" where
  "segmentKey seg = plusChars (takeWhile (\<lambda>c. c \<noteq> 61) seg)"

definition segmentValue :: "jsstring \<Rightarrow> jsstring" where
  "segmentValue seg = plusChars (drop 1 (dropWhile (\<lambda>c. c \<noteq> 61) seg))"

text \<open>
  \<open>decodeStr\<close>: \<open>try { return decoder(s) } catch { return QueryString.unescape(s, true) }\<close>.
\<close>

definition decodeStr :: "lib \<Rightarrow> jsstring \<Rightarrow> jsstring" where
  "decodeStr L s =
     (case decodeURIComponentCallback L s of
        Some v \<Rightarrow> v
      | None \<Rightarrow> qs_unescape L s)"

text \<open>
  The object \<open>querystring.parse\<close> returns maps a key to a string or, for a key that
  occurs again, to the array of its values.  It is kept as the list of its properties
  in the order they were created; \<open>setProp\<close> is the assignment \<open>obj[key] = v\<close>.
\<close>

datatype qsValue = Single jsstring | Many "jsstring list"

type_synonym qsObject = "(jsstring \<times> qsValue) list"

fun setProp :: "('k \<times> 'v) list \<Rightarrow> 'k \<Rightarrow> 'v \<Rightarrow> ('k \<times> 'v) list" where
  "setProp [] k v = [(k, v)]"
| "setProp ((k', v') # r) k v = (if k' = k then (k, v) # r else (k', v') # setProp r k v)"

definition addKeyValue :: "lib \<Rightarrow> qsObject \<Rightarrow> jsstring \<Rightarrow> jsstring \<Rightarrow> qsObject" where
  "addKeyValue L obj key0 value0 =
     (let key = (if key0 \<noteq> [] then decodeStr L key0 else key0);
          val = (if value0 \<noteq> [] then decodeStr L value0 else value0)
      in case map_of obj key of
           None \<Rightarrow> setProp obj key (Single val)
         | Some (Single curValue) \<Rightarrow> setProp obj key (Many [curValue, val])
         | Some (Many curValue) \<Rightarrow> setProp obj key (Many (curValue @ [val])))"

definition parseSegment :: "lib \<Rightarrow> qsObject \<Rightarrow> jsstring \<Rightarrow> qsObject" where
  "parseSegment L obj seg =
     (if seg = [] then obj else addKeyValue L obj (segmentKey seg) (segmentValue seg))"

definition maxKeys :: nat where
  "maxKeys = 1000"

definition querystringParse :: "lib \<Rightarrow> jsstring \<Rightarrow> qsObject" where
  "querystringParse L qs = foldl (parseSegment L) [] (take maxKeys (splitOn 38 qs))"

text \<open>
  \<open>new URLSearchParams(decodedFields)\<close>: every property becomes one pair of the key
  and the value, each converted to a string (an array by \<open>Array.prototype.toString\<close>,
  which joins its elements with commas) and then to a well-formed one (a lone
  surrogate becomes U+FFFD).  Should two keys become equal by that, the later value
  replaces the earlier.  \<open>get\<close> returns the value of the first pair with the name.
\<close>

fun joinComma :: "jsstring list \<Rightarrow> jsstring" where
  "joinComma [] = []"
| "joinComma [v] = v"
| "joinComma (v # w # vs) = v @ 44 # joinComma (w # vs)"

fun stringifyValue :: "qsValue \<Rightarrow> jsstring" where
  "stringifyValue (Single v) = v"
| "stringifyValue (Many vs) = joinComma vs"

fun toUSVString :: "jsstring \<Rightarrow> jsstring" where
  "toUSVString [] = []"
| "toUSVString [c] = (if 0xD800 \<le> c \<and> c \<le> 0xDFFF then [0xFFFD] else [c])"
| "toUSVString (c # d # r) =
     (if 0xD800 \<le> c \<and> c \<le> 0xDBFF \<and> 0xDC00 \<le> d \<and> d \<le> 0xDFFF then c # d # toUSVString r
      else if 0xD800 \<le> c \<and> c \<le> 0xDFFF then 0xFFFD # toUSVString (d # r)
      else c # toUSVString (d # r))"

type_synonym formData = "(jsstring \<times> jsstring) list"

definition urlSearchParams :: "qsObject \<Rightarrow> formData" where
  "urlSearchParams init =
     foldl (\<lambda>params (key, v). setProp params (toUSVString key) (toUSVString (stringifyValue v)))
       [] init"

definition formGet :: "formData \<Rightarrow> jsstring \<Rightarrow> jsstring option" where
  "formGet params name = map_of params name"

text \<open>The decoder as the handler uses it: from the request body to \<open>formData\<close>.\<close>

definition decodeForm :: "lib \<Rightarrow> bytes \<Rightarrow> formData" where
  "decodeForm L body = urlSearchParams (querystringParse L body)"

text \<open>
  What a piece of the body contributes, for stating what the decoder returns: its
  decoded key and value, and the values of all pieces read that have a given key, in
  the order of the body.
\<close>

definition fieldKey :: "lib \<Rightarrow> jsstring \<Rightarrow> jsstring" where
  "fieldKey L seg = (if segmentKey seg \<noteq> [] then decodeStr L (segmentKey seg) else [])"

definition fieldValue :: "lib \<Rightarrow> jsstring \<Rightarrow> jsstring" where
  "fieldValue L seg = (if segmentValue seg \<noteq> [] then decodeStr L (segmentValue seg) else [])"

definition fieldsRead :: "bytes \<Rightarrow> jsstring list" where
  "fieldsRead body = filter (\<lambda>seg. seg \<noteq> []) (take maxKeys (splitOn 38 body))"

definition fieldValues :: "lib \<Rightarrow> bytes \<Rightarrow> jsstring \<Rightarrow> jsstring list" where
  "fieldValues L body name =
     map (fieldValue L) (filter (\<lambda>seg. fieldKey L seg = name) (fieldsRead body))"

text \<open>Libraries whose every call throws.\<close>

definition throwingLib :: lib where
  "throwingLib = \<lparr>iconv_decode = (\<lambda>b. None), he_decode = (\<lambda>s. None), qs_unescape = (\<lambda>s. s)\<rparr>"

text \<open>
  \<open>addKeyValue\<close> on a key and value already decoded, and the string a property of the
  object is read as by \<open>URLSearchParams\<close>.
\<close>

definition insertField :: "qsObject \<Rightarrow> jsstring \<Rightarrow> jsstring \<Rightarrow> qsObject" where
  "insertField obj key val =
     (case map_of obj key of
        None \<Rightarrow> setProp obj key (Single val)
      | Some (Single curValue) \<Rightarrow> setProp obj key (Many [curValue, val])
      | Some (Many curValue) \<Rightarrow> setProp obj key (Many (curValue @ [val])))"

definition stringAt :: "qsObject \<Rightarrow> jsstring \<Rightarrow> jsstring option" where
  "stringAt obj key = map_option stringifyValue (map_of obj key)"

definition appendComma :: "jsstring option \<Rightarrow> jsstring \<Rightarrow> jsstring option" where
  "appendComma acc v = Some (case acc of None \<Rightarrow> v | Some s \<Rightarrow> s @ 44 # v)"

definition goodObject :: "qsObject \<Rightarrow> bool" where
  "goodObject obj \<longleftrightarrow> distinct (map fst obj) \<and> Many [] \<notin> snd ` set obj"

section \<open>The bbs.cgi gateway\<close>

text \<open>
  What the handler works with.  \<open>apiResponse\<close> is the \<open>ApiResponse\<close> of the source
  (\<open>headers\<close> is not read by the handler and left out).  An \<open>apiRequest\<close> is one call of
  \<open>nativeHttpRequest\<close>: the URL, the method and headers of its options, and the payload,
  kept as the object that \<open>JSON.stringify\<close> is applied to.  In a \<open>ThreadPayload\<close> the
  fields are \<open>board_id\<close> (the form value that \<open>Number\<close> is applied to), \<open>title\<close>,
  \<open>body\<close>, \<open>author_name\<close> (\<open>None\<close> for \<open>undefined\<close>) and \<open>fingerprint\<close>; in a
  \<open>CommentPayload\<close> they are \<open>post_id\<close>, \<open>body\<close>, \<open>author_name\<close> and \<open>fingerprint\<close>.
\<close>

record apiResponse =
  apiStatusCode :: nat
  apiSetCookieHeader :: "jsstring list option"
  apiBody :: jsstring

datatype payload =
    ThreadPayload jsstring jsstring jsstring "jsstring option" jsstring
  | CommentPayload jsstring jsstring "jsstring option" jsstring

record apiRequest =
  reqUrl :: jsstring
  reqMethod :: string
  reqHeaders :: "(string \<times> jsstring) list"
  reqPayload :: "payload option"

text \<open>
  The collaborators of the handler, as parameters: the constant \<open>PUBLIC_API_BASE_URL\<close>;
  \<open>nativeHttpRequest\<close> (\<open>None\<close>: the promise is rejected); \<open>iconv.encode(text, 'Shift_JIS')\<close>;
  \<open>JSON.parse(body).error\<close> (\<open>None\<close>: the parse or the property read throws, \<open>Some None\<close>:
  the property is falsy); \<open>JSON.parse(body).id\<close> as text (\<open>None\<close>: it throws); and
  \<open>setCookieParser.parse\<close>, which gives the cookies that \<open>cookies.set\<close> is called with.
\<close>

record env =
  PUBLIC_API_BASE_URL :: jsstring
  nativeHttpRequest :: "apiRequest \<Rightarrow> apiResponse option"
  iconv_encode :: "jsstring \<Rightarrow> bytes"
  json_error :: "jsstring \<Rightarrow> jsstring option option"
  json_id :: "jsstring \<Rightarrow> jsstring option"
  setCookieParse :: "jsstring list \<Rightarrow> jsstring list"

record httpRequest =
  rawBody :: bytes
  hdrForwardedFor :: "jsstring option"
  hdrRealIp :: "jsstring option"
  hdrUserAgent :: "jsstring option"
  inCookies :: "(jsstring \<times> jsstring) list"
  urlOrigin :: jsstring

record httpResponse =
  respStatus :: nat
  respHeaders :: "(string \<times> jsstring) list"
  respBody :: bytes

text \<open>
  What one run of the handler does: the response (\<open>None\<close>: an exception leaves the
  handler), the calls of \<open>nativeHttpRequest\<close> in order, and the cookies written with
  \<open>cookies.set\<close>.
\<close>

record outcome =
  response :: "httpResponse option"
  backendCalls :: "apiRequest list"
  cookiesSet :: "jsstring list"

text \<open>\<open>x || d\<close> on a string that may be \<open>null\<close> or \<open>undefined\<close>, and its truthiness.\<close>

definition orElse :: "jsstring option \<Rightarrow> jsstring \<Rightarrow> jsstring" where
  "orElse x d = (case x of None \<Rightarrow> d | Some s \<Rightarrow> if s = [] then d else s)"

definition truthy :: "jsstring option \<Rightarrow> bool" where
  "truthy x = (case x of None \<Rightarrow> False | Some s \<Rightarrow> s \<noteq> [])"

text \<open>
  \<open>new Response(body, {status, headers})\<close> throws a \<open>RangeError\<close> for a status outside
  200..599.
\<close>

definition newResponse :: "bytes \<Rightarrow> nat \<Rightarrow> (string \<times> jsstring) list \<Rightarrow> httpResponse option" where
  "newResponse b st hs =
     (if 200 \<le> st \<and> st \<le> 599 then Some \<lparr>respStatus = st, respHeaders = hs, respBody = b\<rparr>
      else None)"

text \<open>The messages of the handler (string literals of the source, as UTF-16 code units).\<close>

definition msgMissingBoardOrBody :: jsstring where
  "msgMissingBoardOrBody =
     [0x677F] @ asc ''ID'' @
     [0x307E, 0x305F, 0x306F, 0x672C, 0x6587, 0x304C, 0x3042, 0x308A, 0x307E, 0x305B] @
     [0x3093, 0x3002]"

definition msgThreadFailed :: jsstring where
  "msgThreadFailed =
     [0x30B9, 0x30EC, 0x30C3, 0x30C9, 0x306E, 0x4F5C, 0x6210, 0x306B, 0x5931, 0x6557] @
     [0x3057, 0x307E, 0x3057, 0x305F, 0x3002]"

definition msgThreadCreated :: jsstring where
  "msgThreadCreated =
     [0x30B9, 0x30EC, 0x30C3, 0x30C9, 0x3092, 0x4F5C, 0x6210, 0x3057, 0x307E, 0x3057] @
     [0x305F, 0x3002]"

definition msgMissingKey :: jsstring where
  "msgMissingKey =
     [0x30B9, 0x30EC, 0x30C3, 0x30C9, 0x304C, 0x6307, 0x5B9A, 0x3055, 0x308C, 0x3066] @
     [0x3044, 0x307E, 0x305B, 0x3093, 0x3002]"

definition msgThreadNotFound :: jsstring where
  "msgThreadNotFound =
     [0x8A72, 0x5F53, 0x306E, 0x30B9, 0x30EC, 0x30C3, 0x30C9, 0x304C, 0x898B, 0x3064] @
     [0x304B, 0x308A, 0x307E, 0x305B, 0x3093, 0x3002]"

definition msgLookupFailed :: jsstring where
  "msgLookupFailed =
     [0x30B9, 0x30EC, 0x30C3, 0x30C9, 0x60C5, 0x5831, 0x306E, 0x53D6, 0x5F97, 0x306B] @
     [0x5931, 0x6557, 0x3057, 0x307E, 0x3057, 0x305F, 0x3002]"

definition msgCommentFailed :: jsstring where
  "msgCommentFailed =
     [0x30EC, 0x30B9, 0x306E, 0x6295, 0x7A3F, 0x306B, 0x5931, 0x6557, 0x3057, 0x307E] @
     [0x3057, 0x305F, 0x3002]"

definition msgCommentPosted :: jsstring where
  "msgCommentPosted =
     [0x30EC, 0x30B9, 0x3092, 0x6295, 0x7A3F, 0x3057, 0x307E, 0x3057, 0x305F, 0x3002]"

definition msgUnexpected :: jsstring where
  "msgUnexpected =
     [0x30B5, 0x30FC, 0x30D0, 0x30FC, 0x3067, 0x4E88, 0x671F, 0x305B, 0x306C, 0x30A8] @
     [0x30E9, 0x30FC, 0x304C, 0x767A, 0x751F, 0x3057, 0x307E, 0x3057, 0x305F, 0x3002]"

text \<open>
  The HTML of a success: the template literal of \<open>createCgiSuccessResponse\<close> with
  \<open>redirectUrl\<close> filled in twice.
\<close>

definition redirectUrlOf :: "jsstring \<Rightarrow> jsstring \<Rightarrow> jsstring" where
  "redirectUrlOf boardId threadKey =
     asc ''../read.cgi/'' @ boardId @ asc ''/'' @ threadKey @ asc ''/''"

definition metaRefresh :: "jsstring \<Rightarrow> jsstring" where
  "metaRefresh redirectUrl =
     asc ''<meta http-equiv='' @ [34] @ asc ''refresh'' @ [34] @ asc '' content='' @ [34] @
     asc ''2;URL='' @ redirectUrl @ [34] @ asc ''>''"

definition successHtml :: "jsstring \<Rightarrow> jsstring" where
  "successHtml redirectUrl =
     [10] @ asc ''<!DOCTYPE HTML PUBLIC '' @ [34] @
     asc ''-//W3C//DTD HTML 4.01 Transitional//EN'' @ [34] @ asc ''>'' @ [10] @
     asc ''<html>'' @ [10] @ asc ''<head>'' @ [10] @ asc ''<title>'' @
     [0x66F8, 0x304D, 0x3053, 0x307F, 0x307E, 0x3057, 0x305F, 0x3002] @ asc ''</title>'' @
     [10] @
     metaRefresh redirectUrl @
     [10] @ asc ''</head>'' @ [10] @ asc ''<body>'' @
     [10, 0x66F8, 0x304D, 0x3053, 0x307F, 0x307E, 0x3057, 0x305F, 0x3002] @ asc ''<br><br>'' @
     [10] @ asc ''<a href='' @ [34] @
     redirectUrl @
     [34] @ asc '' target='' @ [34] @ asc ''_top'' @ [34] @ asc ''>'' @
     [0x753B, 0x9762, 0x3092, 0x5207, 0x308A, 0x66FF, 0x3048, 0x308B] @ asc ''</a>'' @ [10] @
     asc ''</body>'' @ [10] @ asc ''</html>'' @ [10]"

text \<open>The HTML of a failure, and the message that replaces every other at status 401.\<close>

definition errorHtml :: "jsstring \<Rightarrow> jsstring" where
  "errorHtml errorMessage =
     [10] @ asc ''<!DOCTYPE HTML PUBLIC '' @ [34] @
     asc ''-//W3C//DTD HTML 4.01 Transitional//EN'' @ [34] @ asc ''>'' @ [10] @
     asc ''<html>'' @ [10] @ asc ''<head>'' @ [10] @ asc ''<title>ERROR!</title>'' @ [10] @
     asc ''</head>'' @ [10] @ asc ''<body>'' @ [10] @ asc ''ERROR: '' @
     errorMessage @
     asc ''<br><br>'' @ [10] @ asc ''</body>'' @ [10] @ asc ''</html>'' @ [10]"

definition authMessage :: "jsstring \<Rightarrow> jsstring" where
  "authMessage origin =
     (let authUrl = origin @ asc ''/auth/register''
      in [0x6295, 0x7A3F, 0x3059, 0x308B, 0x305F, 0x3081, 0x306B, 0x306F, 0x3001] @
         asc ''<a href='' @ [34] @ authUrl @
         [34] @ asc '' target='' @ [34] @ asc ''_blank'' @ [34] @ asc ''>'' @ authUrl @
         asc ''</a> '' @
         [0x306B, 0x3066, 0x8A8D, 0x8A3C, 0x3057, 0x3066, 0x3001, 0x5C02, 0x30D6, 0x30E9] @
         [0x9023, 0x643A, 0x30C8, 0x30FC, 0x30AF, 0x30F3, 0x3092, 0x53D6, 0x5F97, 0x3057] @
         [0x3066, 0x304F, 0x3060, 0x3055, 0x3044])"

text \<open>
  The headers the handler forwards to the backend (\<open>baseHeaders\<close>): the three request
  headers that are present and not empty, and the cookies of the request.
\<close>

fun joinWith :: "jsstring \<Rightarrow> jsstring list \<Rightarrow> jsstring" where
  "joinWith sep [] = []"
| "joinWith sep [v] = v"
| "joinWith sep (v # w # vs) = v @ sep @ joinWith sep (w # vs)"

definition baseHeadersOf :: "httpRequest \<Rightarrow> (string \<times> jsstring) list" where
  "baseHeadersOf req =
     (if truthy (hdrForwardedFor req) then [(''X-Forwarded-For'', orElse (hdrForwardedFor req) [])]
      else []) @
     (if truthy (hdrRealIp req) then [(''X-Real-IP'', orElse (hdrRealIp req) [])] else []) @
     (if truthy (hdrUserAgent req) then [(''User-Agent'', orElse (hdrUserAgent req) [])] else []) @
     (if inCookies req \<noteq> [] then
        [(''Cookie'', joinWith (asc ''; '') (map (\<lambda>(n, v). n @ asc ''='' @ v) (inCookies req)))]
      else [])"

text \<open>
  The cookies written from a backend response: \<open>if (setCookieHeader)\<close>, every parsed
  cookie is passed to \<open>cookies.set\<close>, which is taken to accept it.
\<close>

definition cookieWrites :: "env \<Rightarrow> apiResponse \<Rightarrow> jsstring list" where
  "cookieWrites E api =
     (case apiSetCookieHeader api of None \<Rightarrow> [] | Some hs \<Rightarrow> setCookieParse E hs)"

text \<open>
  \<open>createCgiSuccessResponse\<close> and \<open>createCgiErrorResponse\<close>: the response (\<open>None\<close> when
  \<open>new Response\<close> throws) and the cookies written before it is built.  \<open>message\<close> and
  \<open>boardId\<close> of the error response are only logged.
\<close>

definition createCgiSuccessResponse ::
  "env \<Rightarrow> jsstring \<Rightarrow> jsstring \<Rightarrow> jsstring \<Rightarrow> apiResponse \<Rightarrow> httpResponse option \<times> jsstring list" where
  "createCgiSuccessResponse E message boardId threadKey apiResponse =
     (let redirectUrl = redirectUrlOf boardId threadKey;
          responseHtml = successHtml redirectUrl;
          written = cookieWrites E apiResponse;
          encoded = iconv_encode E responseHtml;
          hs = [(''Content-Type'', asc ''text/html; charset=Shift_JIS'')]
      in (newResponse encoded 200 hs, written))"

definition createCgiErrorResponse ::
  "env \<Rightarrow> jsstring \<Rightarrow> jsstring \<Rightarrow> apiResponse option \<Rightarrow> jsstring
     \<Rightarrow> httpResponse option \<times> jsstring list" where
  "createCgiErrorResponse E defaultMessage boardId apiResponse origin =
     (let statusCode = (case apiResponse of None \<Rightarrow> 400 | Some api \<Rightarrow> apiStatusCode api);
          parsedMessage =
            (case apiResponse of
               None \<Rightarrow> defaultMessage
             | Some api \<Rightarrow>
                 if apiBody api \<noteq> [] then
                   (case json_error E (apiBody api) of
                      Some (Some e) \<Rightarrow> e
                    | Some None \<Rightarrow> defaultMessage
                    | None \<Rightarrow> if apiBody api \<noteq> [] then apiBody api else defaultMessage)
                 else defaultMessage);
          errorMessage = (if statusCode = 401 then authMessage origin else parsedMessage);
          responseHtml = errorHtml errorMessage;
          written = (case apiResponse of None \<Rightarrow> [] | Some api \<Rightarrow> cookieWrites E api);
          encoded = iconv_encode E responseHtml;
          hs = [(''Content-Type'', asc ''text/html; charset=Shift_JIS'')]
      in (newResponse encoded statusCode hs, written))"

text \<open>
  \<open>createSjisResponse\<close>, which the read-only endpoints answer with.  \<open>decimal\<close> is
  \<open>toString()\<close> of a length.
\<close>

function decimal :: "nat \<Rightarrow> jsstring" where
  "decimal n = (if n < 10 then [48 + n] else decimal (n div 10) @ [48 + n mod 10])"
  by pat_completeness auto
termination
  by (relation "measure (\<lambda>n. n)") auto

declare decimal.simps [simp del]

definition createSjisResponse ::
  "env \<Rightarrow> jsstring \<Rightarrow> jsstring \<Rightarrow> nat \<Rightarrow> jsstring list \<Rightarrow> httpResponse option" where
  "createSjisResponse E txt contentType st setCookieHeaders =
     (let encodedBody = iconv_encode E txt;
          contentLength = decimal (length encodedBody);
          hs = [(''Content-Type'', contentType @ asc ''; charset=Shift_JIS''),
                (''Content-Length'', contentLength)]
               @ map (\<lambda>cookie. (''set-cookie'', cookie)) setCookieHeaders
      in newResponse encodedBody st hs)"

text \<open>The three calls of the backend the handler can make.\<close>

definition authorOf :: "jsstring \<Rightarrow> jsstring option" where
  "authorOf authorName = (if authorName = [] then None else Some authorName)"

definition threadCall ::
  "env \<Rightarrow> httpRequest \<Rightarrow> jsstring \<Rightarrow> jsstring \<Rightarrow> jsstring \<Rightarrow> jsstring \<Rightarrow> apiRequest" where
  "threadCall E req boardId subject msg authorName =
     \<lparr>reqUrl = PUBLIC_API_BASE_URL E @ asc ''/posts'',
      reqMethod = ''POST'',
      reqHeaders = (''Content-Type'', asc ''application/json; charset=utf-8'') # baseHeadersOf req,
      reqPayload = Some (ThreadPayload boardId subject msg (authorOf authorName)
                     (orElse (hdrUserAgent req) (asc ''unknown'')))\<rparr>"

definition lookupCall :: "env \<Rightarrow> httpRequest \<Rightarrow> jsstring \<Rightarrow> jsstring \<Rightarrow> apiRequest" where
  "lookupCall E req threadKey boardId =
     \<lparr>reqUrl = PUBLIC_API_BASE_URL E @ asc ''/posts/by-timestamp/'' @ threadKey
                @ asc ''?board_id='' @ boardId,
      reqMethod = ''GET'',
      reqHeaders = baseHeadersOf req,
      reqPayload = None\<rparr>"

definition commentCall ::
  "env \<Rightarrow> httpRequest \<Rightarrow> jsstring \<Rightarrow> jsstring \<Rightarrow> jsstring \<Rightarrow> apiRequest" where
  "commentCall E req postId msg authorName =
     \<lparr>reqUrl = PUBLIC_API_BASE_URL E @ asc ''/comments'',
      reqMethod = ''POST'',
      reqHeaders = (''Content-Type'', asc ''application/json; charset=utf-8'') # baseHeadersOf req,
      reqPayload = Some (CommentPayload postId msg (authorOf authorName)
                     (orElse (hdrUserAgent req) (asc ''unknown'')))\<rparr>"

text \<open>
  The exits of the handler.  \<open>respond\<close> is a \<open>return\<close> inside the \<open>try\<close> block: when
  building the response throws, the \<open>catch\<close> block answers.  \<open>caught\<close> is the \<open>catch\<close>
  block, which answers with the message for an unexpected error and no backend
  response.
\<close>

definition caught :: "env \<Rightarrow> httpRequest \<Rightarrow> jsstring \<Rightarrow> apiRequest list \<Rightarrow> jsstring list \<Rightarrow> outcome" where
  "caught E req boardId calls written =
     (case createCgiErrorResponse E msgUnexpected boardId None (urlOrigin req) of
        (r, w) \<Rightarrow> \<lparr>response = r, backendCalls = calls, cookiesSet = written @ w\<rparr>)"

definition respond ::
  "env \<Rightarrow> httpRequest \<Rightarrow> jsstring \<Rightarrow> apiRequest list \<Rightarrow> httpResponse option \<times> jsstring list \<Rightarrow> outcome" where
  "respond E req boardId calls result =
     (case result of
        (Some r, w) \<Rightarrow> \<lparr>response = Some r, backendCalls = calls, cookiesSet = w\<rparr>
      | (None, w) \<Rightarrow> caught E req boardId calls w)"

text \<open>The form fields the handler reads: \<open>formData.get(name) || ''\<close>.\<close>

definition formField :: "lib \<Rightarrow> httpRequest \<Rightarrow> string \<Rightarrow> jsstring" where
  "formField L req name = orElse (formGet (decodeForm L (rawBody req)) (asc name)) []"

text \<open>
  The \<open>POST\<close> handler, from its \<open>try\<close> block on.  The prefix of the log lines, which
  is computed before the \<open>try\<close>, and the log lines themselves are left out; the body
  of the request is taken as read.
\<close>

definition createThread ::
  "env \<Rightarrow> httpRequest \<Rightarrow> jsstring \<Rightarrow> jsstring \<Rightarrow> jsstring \<Rightarrow> jsstring \<Rightarrow> outcome" where
  "createThread E req boardId subject msg authorName =
     (let call = threadCall E req boardId subject msg authorName
      in case nativeHttpRequest E call of
           None \<Rightarrow> caught E req boardId [call] []
         | Some apiResponse \<Rightarrow>
             if apiStatusCode apiResponse \<ge> 400 then
               respond E req boardId [call]
                 (createCgiErrorResponse E msgThreadFailed boardId (Some apiResponse) (urlOrigin req))
             else
               (case json_id E (apiBody apiResponse) of
                  None \<Rightarrow> caught E req boardId [call] []
                | Some createdId \<Rightarrow>
                    respond E req boardId [call]
                      (createCgiSuccessResponse E msgThreadCreated boardId createdId apiResponse)))"

definition createComment ::
  "env \<Rightarrow> httpRequest \<Rightarrow> jsstring \<Rightarrow> jsstring \<Rightarrow> jsstring \<Rightarrow> jsstring \<Rightarrow> outcome" where
  "createComment E req boardId threadKey msg authorName =
     (if threadKey = [] then
        respond E req boardId []
          (createCgiErrorResponse E msgMissingKey boardId None (urlOrigin req))
      else
        (let getCall = lookupCall E req threadKey boardId
         in case nativeHttpRequest E getCall of
              None \<Rightarrow> caught E req boardId [getCall] []
            | Some postRes \<Rightarrow>
                if apiStatusCode postRes \<ge> 400 then
                  respond E req boardId [getCall]
                    (createCgiErrorResponse E
                       (if apiStatusCode postRes = 404 then msgThreadNotFound else msgLookupFailed)
                       boardId (Some postRes) (urlOrigin req))
                else
                  (case json_id E (apiBody postRes) of
                     None \<Rightarrow> caught E req boardId [getCall] []
                   | Some targetId \<Rightarrow>
                       (let postCall = commentCall E req targetId msg authorName
                        in case nativeHttpRequest E postCall of
                             None \<Rightarrow> caught E req boardId [getCall, postCall] []
                           | Some apiResponse \<Rightarrow>
                               if apiStatusCode apiResponse \<ge> 400 then
                                 respond E req boardId [getCall, postCall]
                                   (createCgiErrorResponse E msgCommentFailed boardId
                                      (Some apiResponse) (urlOrigin req))
                               else
                                 respond E req boardId [getCall, postCall]
                                   (createCgiSuccessResponse E msgCommentPosted boardId
                                      threadKey apiResponse)))))"

definition POST :: "lib \<Rightarrow> env \<Rightarrow> httpRequest \<Rightarrow> outcome" where
  "POST L E req =
     (let boardIdFromForm = formField L req ''bbs'';
          threadKey = formField L req ''key'';
          msg = formField L req ''MESSAGE'';
          authorName = formField L req ''FROM'';
          subject = formField L req ''subject''
      in if boardIdFromForm = [] \<or> msg = [] then
           respond E req boardIdFromForm []
             (createCgiErrorResponse E msgMissingBoardOrBody boardIdFromForm None (urlOrigin req))
         else if subject \<noteq> [] then createThread E req boardIdFromForm subject msg authorName
         else createComment E req boardIdFromForm threadKey msg authorName)"

text \<open>
  A backend that accepts every call and answers with the post of id 7, and a request
  with the given body, to run the handler on concrete requests.
\<close>

definition acceptingEnv :: env where
  "acceptingEnv =
     \<lparr>PUBLIC_API_BASE_URL = asc ''http://backend'',
      nativeHttpRequest = (\<lambda>c. Some \<lparr>apiStatusCode = 200, apiSetCookieHeader = None,
                                  apiBody = asc ''{id:7}''\<rparr>),
      iconv_encode = (\<lambda>s. map (\<lambda>c. c mod 256) s),
      json_error = (\<lambda>b. None),
      json_id = (\<lambda>b. Some (asc ''7'')),
      setCookieParse = (\<lambda>hs. hs)\<rparr>"

definition requestWith :: "bytes \<Rightarrow> httpRequest" where
  "requestWith b =
     \<lparr>rawBody = b, hdrForwardedFor = None, hdrRealIp = None, hdrUserAgent = None,
      inCookies = [], urlOrigin = asc ''http://bbs''\<rparr>"

text \<open>The headers of every response built by the two helpers of the handler.\<close>

definition cgiHeaders :: "(string \<times> jsstring) list" where
  "cgiHeaders = [(''Content-Type'', asc ''text/html; charset=Shift_JIS'')]"

definition answersPlainly :: "outcome \<Rightarrow> bool" where
  "answersPlainly out \<longleftrightarrow> (\<exists>r. response out = Some r \<and> respHeaders r = cgiHeaders)"

section \<open>The visitor id (getVisitorId)\<close>

text \<open>
  The value of a fingerprint component is any JavaScript value.  Numbers and objects
  are of types left open; what the code does with them is a parameter: whether a number
  is falsy (\<open>0\<close> or \<open>NaN\<close>), \<open>String(n)\<close> of a number and \<open>JSON.stringify(o)\<close> of an object.
  \<open>text_encode\<close> is \<open>new TextEncoder().encode\<close> and \<open>sha256_digest\<close> is
  \<open>crypto.subtle.digest('SHA-256', _)\<close>.
\<close>

datatype ('n, 'o) jsValue = Undefined | Null | Boolean bool | Number 'n | String jsstring | Object 'o

record ('n, 'o) platform =
  num_falsy :: "'n \<Rightarrow> bool"
  num_string :: "'n \<Rightarrow> jsstring"
  json_stringify :: "'o \<Rightarrow> jsstring"
  text_encode :: "jsstring \<Rightarrow> bytes"
  sha256_digest :: "bytes \<Rightarrow> bytes"

definition STABLE_COMPONENTS :: "string list" where
  "STABLE_COMPONENTS = [''webgl'', ''canvas'', ''audio'']"

text \<open>
  \<open>b.toString(16).padStart(2, '0')\<close> of a byte, and the helper \<open>sha256\<close>: the digest of
  the encoded message, written as hexadecimal digits.
\<close>

definition hexDigitChar :: "nat \<Rightarrow> nat" where
  "hexDigitChar d = (if d < 10 then 48 + d else 87 + d)"

definition hexByte :: "nat \<Rightarrow> jsstring" where
  "hexByte b = (if b < 16 then [48, hexDigitChar b] else [hexDigitChar (b div 16), hexDigitChar (b mod 16)])"

definition sha256 :: "('n, 'o) platform \<Rightarrow> jsstring \<Rightarrow> jsstring" where
  "sha256 P message =
     (let msgBuffer = text_encode P message;
          hashArray = sha256_digest P msgBuffer
      in concat (map hexByte hashArray))"

text \<open>
  The contribution of one component.  \<open>None\<close> is a component that \<open>result.components\<close>
  does not have; a component without a value has the value \<open>Undefined\<close>.  The test
  \<open>component && component.value\<close> fails for both and for every falsy value.
\<close>

definition valueTruthy :: "('n, 'o) platform \<Rightarrow> ('n, 'o) jsValue \<Rightarrow> bool" where
  "valueTruthy P v =
     (case v of
        Undefined \<Rightarrow> False
      | Null \<Rightarrow> False
      | Boolean b \<Rightarrow> b
      | Number n \<Rightarrow> \<not> num_falsy P n
      | String s \<Rightarrow> s \<noteq> []
      | Object ob \<Rightarrow> True)"

definition stringOf :: "('n, 'o) platform \<Rightarrow> ('n, 'o) jsValue \<Rightarrow> jsstring" where
  "stringOf P v =
     (case v of
        Undefined \<Rightarrow> asc ''undefined''
      | Null \<Rightarrow> asc ''null''
      | Boolean b \<Rightarrow> (if b then asc ''true'' else asc ''false'')
      | Number n \<Rightarrow> num_string P n
      | String s \<Rightarrow> s
      | Object ob \<Rightarrow> asc ''[object Object]'')"

definition stableValue :: "('n, 'o) platform \<Rightarrow> ('n, 'o) jsValue option \<Rightarrow> jsstring" where
  "stableValue P component =
     (case component of
        None \<Rightarrow> []
      | Some v \<Rightarrow>
          if valueTruthy P v then
            (case v of Object ob \<Rightarrow> json_stringify P ob | _ \<Rightarrow> stringOf P v)
          else [])"

text \<open>
  \<open>getVisitorId\<close>, from the components that \<open>fp.get\<close> returned.  \<open>browser\<close> is the flag
  of \<open>$app/environment\<close>: on the server the id is the empty string.
\<close>

definition stableValues :: "('n, 'o) platform \<Rightarrow> (string \<Rightarrow> ('n, 'o) jsValue option) \<Rightarrow> jsstring" where
  "stableValues P components =
     joinWith (asc '';'') (map (\<lambda>key. stableValue P (components key)) STABLE_COMPONENTS)"

definition getVisitorId ::
  "('n, 'o) platform \<Rightarrow> bool \<Rightarrow> (string \<Rightarrow> ('n, 'o) jsValue option) \<Rightarrow> jsstring" where
  "getVisitorId P browser components =
     (if \<not> browser then [] else sha256 P (stableValues P components))"

text \<open>
  A platform to run the hash on concrete components: numbers are integers written by
  their sign and a digit, objects are given by their JSON text, and the digest is the
  encoded message itself, so that the id shows what was hashed.
\<close>

definition toyPlatform :: "(int, jsstring) platform" where
  "toyPlatform =
     \<lparr>num_falsy = (\<lambda>n. n = 0),
      num_string = (\<lambda>n. if n < 0 then [45, 48 + nat (- n) mod 10] else [48 + nat n mod 10]),
      json_stringify = (\<lambda>ob. ob),
      text_encode = (\<lambda>s. map (\<lambda>c. c mod 256) s),
      sha256_digest = (\<lambda>m. m)\<rparr>"

section \<open>The rate-limit lock table (rate_limit_locks)\<close>

text \<open>
  A row of \<open>rate_limit_locks\<close> as the migration declares it: \<open>target_key TEXT PRIMARY KEY\<close>,
  \<open>rule_id INTEGER NOT NULL\<close>, \<open>expires_at TIMESTAMPTZ NOT NULL\<close> (a point in time, as a
  number).  The table is the list of its rows.
\<close>

record lockRow =
  target_key :: jsstring
  rule_id :: int
  expires_at :: int

type_synonym lockTable = "lockRow list"

datatype sqlError = UniqueViolation

text \<open>
  The statements the schema admits.  \<open>INSERT\<close> is refused by the primary key when a
  row with the key exists; \<open>DELETE\<close> by key, the clean-up of expired rows (the index on
  \<open>expires_at\<close> serves it) and the cascade from a deleted rule remove rows.
\<close>

definition insertLock :: "lockTable \<Rightarrow> lockRow \<Rightarrow> sqlError + lockTable" where
  "insertLock t row =
     (if target_key row \<in> target_key ` set t then Inl UniqueViolation else Inr (t @ [row]))"

definition deleteLock :: "lockTable \<Rightarrow> jsstring \<Rightarrow> lockTable" where
  "deleteLock t k = filter (\<lambda>r. target_key r \<noteq> k) t"

definition deleteExpired :: "lockTable \<Rightarrow> int \<Rightarrow> lockTable" where
  "deleteExpired t now = filter (\<lambda>r. now < expires_at r) t"

definition deleteLocksOfRule :: "lockTable \<Rightarrow> int \<Rightarrow> lockTable" where
  "deleteLocksOfRule t rid = filter (\<lambda>r. rule_id r \<noteq> rid) t"

text \<open>
  Modelled from the spec: the statement that creates or extends a lock, which is code
  of the backend's rate limiter and not among the sources.  The spec describes it as an
  upsert on the lock's target key with "latest expiry wins on conflict": a row for a
  new key is added, and for an existing key the row with the later expiry is kept.
\<close>

fun upsertLock :: "lockTable \<Rightarrow> lockRow \<Rightarrow> lockTable" where
  "upsertLock [] row = [row]"
| "upsertLock (old # t) row =
     (if target_key old = target_key row then
        (if expires_at old \<le> expires_at row then row else old) # t
      else old # upsertLock t row)"

definition lockOf :: "lockTable \<Rightarrow> jsstring \<Rightarrow> lockRow option" where
  "lockOf t k = find (\<lambda>r. target_key r = k) t"

text \<open>
  The storage states that can be reached: from the empty table by any sequence of these
  statements, each atomic, in whatever order simultaneous requests are served.
\<close>

inductive reachable :: "lockTable \<Rightarrow> bool" where
  empty: "reachable []"
| insert: "reachable t \<Longrightarrow> insertLock t row = Inr t' \<Longrightarrow> reachable t'"
| upsert: "reachable t \<Longrightarrow> reachable (upsertLock t row)"
| delete: "reachable t \<Longrightarrow> reachable (deleteLock t k)"
| expire: "reachable t \<Longrightarrow> reachable (deleteExpired t now)"
| cascade: "reachable t \<Longrightarrow> reachable (deleteLocksOfRule t rid)"

section \<open>Properties of the dat-field escaper\<close>

lemma asc_amp: "asc ''&amp;'' = [38, 97, 109, 112, 59]"
  by (simp add: asc_def)

lemma asc_lt: "asc ''&lt;'' = [38, 108, 116, 59]"
  by (simp add: asc_def)

lemma replaceNewline_other:
  "c \<noteq> 13 \<Longrightarrow> replaceNewline (c # xs) = (if c = 10 then 32 else c) # replaceNewline xs"
  by (cases xs) auto

lemma replaceNewline_cr:
  "xs \<noteq> [] \<Longrightarrow> hd xs \<noteq> 10 \<Longrightarrow> replaceNewline (13 # xs) = 13 # replaceNewline xs"
  by (cases xs) auto

lemma escapeOnePass_other:
  "c \<noteq> 13 \<Longrightarrow> escapeOnePass (c # xs) =
     (if c = 38 then asc ''&amp;'' else if c = 60 then asc ''&lt;''
      else if c = 10 then [32] else [c]) @ escapeOnePass xs"
  by (cases xs) auto

lemma hd_amp_lt_passes:
  "d \<noteq> 10 \<Longrightarrow>
     replaceLt (replaceAmp (d # r)) \<noteq> [] \<and> hd (replaceLt (replaceAmp (d # r))) \<noteq> 10"
  by (simp add: asc_amp asc_lt)

text \<open>The three \<open>replace\<close> calls in sequence act on the original text as one pass.\<close>

lemma three_passes_one_pass: "replaceNewline (replaceLt (replaceAmp t)) = escapeOnePass t"
proof (induction t rule: length_induct)
  case (1 t)
  have ih: "replaceNewline (replaceLt (replaceAmp ys)) = escapeOnePass ys"
    if "length ys < length t" for ys
    using 1 that by blast
  show ?case
  proof (cases t)
    case Nil
    then show ?thesis by simp
  next
    case (Cons c xs)
    have ihxs: "replaceNewline (replaceLt (replaceAmp xs)) = escapeOnePass xs"
      using ih [of xs] Cons by simp
    show ?thesis
    proof (cases "c = 13")
      case False
      then have "replaceNewline (replaceLt (replaceAmp (c # xs))) =
          (if c = 38 then asc ''&amp;'' else if c = 60 then asc ''&lt;''
           else if c = 10 then [32] else [c]) @ replaceNewline (replaceLt (replaceAmp xs))"
        by (simp add: asc_amp asc_lt replaceNewline_other del: replaceNewline.simps)
      then show ?thesis
        using Cons ihxs escapeOnePass_other [OF False, of xs] by simp
    next
      case True
      show ?thesis
      proof (cases xs)
        case Nil
        then show ?thesis using Cons True by simp
      next
        case xs: (Cons d cs)
        show ?thesis
        proof (cases "d = 10")
          case d: True
          have "replaceNewline (replaceLt (replaceAmp cs)) = escapeOnePass cs"
            using ih [of cs] Cons xs by simp
          then show ?thesis using Cons xs True d by simp
        next
          case d: False
          have "replaceLt (replaceAmp t) = 13 # replaceLt (replaceAmp (d # cs))"
            using True Cons xs by simp
          then have "replaceNewline (replaceLt (replaceAmp t)) =
              13 # replaceNewline (replaceLt (replaceAmp (d # cs)))"
            using replaceNewline_cr [of "replaceLt (replaceAmp (d # cs))"]
              hd_amp_lt_passes [OF d, of cs]
            by presburger
          also have "\<dots> = 13 # escapeOnePass (d # cs)"
            using ihxs xs by (simp only:)
          also have "\<dots> = escapeOnePass t"
            using True d Cons xs by simp
          finally show ?thesis .
        qed
      qed
    qed
  qed
qed

lemma escapeOnePass_no_lt_lf: "60 \<notin> set (escapeOnePass t) \<and> 10 \<notin> set (escapeOnePass t)"
  by (induction t rule: escapeOnePass.induct) (auto simp: asc_def)

lemma escapeOnePass_gt: "filter (\<lambda>c. c = 62) (escapeOnePass t) = filter (\<lambda>c. c = 62) t"
  by (induction t rule: escapeOnePass.induct) (auto simp: asc_def)

text \<open>
  C10, as stated, fails: the escaper is claimed to replace every newline character, CR
  as well as LF, so that no field it returns holds one.  A CR that is not directly
  followed by LF is no match of \<open>/\r?\n/\<close> and stays in the field: \<open>"a\rb"\<close> is
  returned unchanged.
\<close>

theorem escapeDatField_keeps_lone_cr:
  "escapeDatField (Some [97, 13, 98]) = [97, 13, 98] \<and> 13 \<in> set (escapeDatField (Some [97, 13, 98]))"
  by (simp add: escapeDatField_def)

text \<open>
  C10, amended: \<open>null\<close>/\<open>undefined\<close> give the empty string; on a string the escaper
  acts as the one-pass reading \<open>escapeOnePass\<close>: every \<open>&\<close> becomes \<open>&amp;\<close>, every
  \<open><\<close> becomes \<open>&lt;\<close>, every LF, together with a CR directly before it, becomes one
  space, and every other code unit (a \<open>>\<close>, a CR not followed by LF) is kept.  The
  field returned holds no \<open><\<close> and no LF, and the \<open>>\<close> of the text are all kept.
\<close>

theorem escapeDatField_one_pass:
  "escapeDatField None = []
   \<and> escapeDatField (Some t) = escapeOnePass t
   \<and> 60 \<notin> set (escapeDatField (Some t))
   \<and> 10 \<notin> set (escapeDatField (Some t))
   \<and> filter (\<lambda>c. c = 62) (escapeDatField (Some t)) = filter (\<lambda>c. c = 62) t"
proof -
  have eq: "escapeDatField (Some t) = escapeOnePass t"
    by (cases t) (simp_all add: escapeDatField_def three_passes_one_pass del: replaceAmp.simps)
  show ?thesis
    using escapeOnePass_no_lt_lf [of t] escapeOnePass_gt [of t]
    by (simp add: eq) (simp add: escapeDatField_def)
qed

section \<open>Properties of the percent-unescaping pass\<close>

lemma unescapeFrom_literal:
  "c \<noteq> 0x25 \<or> length cs < 2 \<Longrightarrow> unescapeFrom (c # cs) = int c # unescapeFrom cs"
proof (cases cs)
  case Nil
  then show ?thesis by simp
next
  case c1: (Cons h1 r1)
  assume a: "c \<noteq> 0x25 \<or> length cs < 2"
  show ?thesis
  proof (cases r1)
    case Nil
    then show ?thesis using c1 by simp
  next
    case (Cons h2 r2)
    then show ?thesis using c1 a by simp
  qed
qed

lemma toStringAscii_two:
  "i + 2 < length buffer \<Longrightarrow>
     toStringAscii buffer (i + 1) (i + 3) = [buffer ! (i + 1) mod 128, buffer ! (i + 2) mod 128]"
proof -
  assume a: "i + 2 < length buffer"
  have "drop (i + 1) buffer = buffer ! (i + 1) # drop (i + 2) buffer"
    using a Cons_nth_drop_Suc [of "i + 1" buffer] by simp
  moreover have "drop (i + 2) buffer = buffer ! (i + 2) # drop (i + 3) buffer"
    using a Cons_nth_drop_Suc [of "i + 2" buffer] by (simp add: numeral_3_eq_3)
  ultimately show ?thesis
    by (simp add: toStringAscii_def slice_def)
qed

lemma drop_three:
  "i + 2 < length buffer \<Longrightarrow>
     drop i buffer = buffer ! i # buffer ! (i + 1) # buffer ! (i + 2) # drop (i + 3) buffer"
proof -
  assume a: "i + 2 < length buffer"
  have "drop i buffer = buffer ! i # drop (i + 1) buffer"
    using a Cons_nth_drop_Suc [of i buffer] by simp
  moreover have "drop (i + 1) buffer = buffer ! (i + 1) # drop (i + 2) buffer"
    using a Cons_nth_drop_Suc [of "i + 1" buffer] by simp
  moreover have "drop (i + 2) buffer = buffer ! (i + 2) # drop (i + 3) buffer"
    using a Cons_nth_drop_Suc [of "i + 2" buffer] by (simp add: numeral_3_eq_3)
  ultimately show ?thesis by simp
qed

lemma drop_two_after:
  "i + 2 < length buffer \<Longrightarrow>
     drop (i + 1) buffer = buffer ! (i + 1) # buffer ! (i + 2) # drop (i + 3) buffer"
  using drop_three [of i buffer] Cons_nth_drop_Suc [of i buffer] by simp

text \<open>The index loop computes the recursion over the bytes still to be read.\<close>

lemma percentLoop_unescapeFrom:
  "percentLoop buffer i acc = acc @ unescapeFrom (drop i buffer)"
proof (induction buffer i acc rule: percentLoop.induct)
  case (1 buffer i bytes)
  show ?case
  proof (cases "i < length buffer")
    case False
    then show ?thesis by (simp add: percentLoop.simps [of buffer i bytes])
  next
    case lt: True
    have d1: "drop i buffer = buffer ! i # drop (i + 1) buffer"
      using lt Cons_nth_drop_Suc [of i buffer] by simp
    show ?thesis
    proof (cases "buffer ! i = 0x25 \<and> i + 2 < length buffer")
      case False
      then have "buffer ! i \<noteq> 0x25 \<or> length (drop (i + 1) buffer) < 2"
        by auto
      then have lit: "unescapeFrom (drop i buffer) = int (buffer ! i) # unescapeFrom (drop (i + 1) buffer)"
        using d1 unescapeFrom_literal [of "buffer ! i" "drop (i + 1) buffer"] by simp
      have "percentLoop buffer i bytes = percentLoop buffer (i + 1) (bytes @ [int (buffer ! i)])"
        using lt False by (subst percentLoop.simps) auto
      also have "\<dots> = (bytes @ [int (buffer ! i)]) @ unescapeFrom (drop (i + 1) buffer)"
        using "1.IH"(3) lt False by blast
      finally show ?thesis using lit by simp
    next
      case esc: True
      note two = toStringAscii_two [of i buffer] drop_three [of i buffer] drop_two_after [of i buffer]
      show ?thesis
      proof (cases "parseInt16 (toStringAscii buffer (i + 1) (i + 3))")
        case None
        have "percentLoop buffer i bytes = percentLoop buffer (i + 1) (bytes @ [int (buffer ! i)])"
          using lt esc None by (subst percentLoop.simps) auto
        also have "\<dots> = (bytes @ [int (buffer ! i)]) @ unescapeFrom (drop (i + 1) buffer)"
          using "1.IH"(1) lt esc None by blast
        finally show ?thesis
          using esc None two by (simp add: numeral_3_eq_3)
      next
        case (Some byte)
        have "percentLoop buffer i bytes = percentLoop buffer (i + 3) (bytes @ [byte])"
          using lt esc Some by (subst percentLoop.simps) auto
        also have "\<dots> = (bytes @ [byte]) @ unescapeFrom (drop (i + 3) buffer)"
          using "1.IH"(2) lt esc Some by blast
        finally show ?thesis
          using esc Some two by simp
      qed
    qed
  qed
qed

lemma percentUnescape_unescapeFrom: "percentUnescape buffer = bufferFrom (unescapeFrom buffer)"
  by (simp add: percentUnescape_def percentLoop_unescapeFrom)

lemma hexDigit_Some_bounds:
  "hexDigit c = Some d \<Longrightarrow> d < 16 \<and> 48 \<le> c \<and> c \<le> 102"
  by (auto simp: hexDigit_def split: if_splits)

lemma parseInt16_two_digits:
  assumes "hexDigit h1 = Some d1" and "hexDigit h2 = Some d2"
  shows "parseInt16 [h1, h2] = Some (int (16 * d1 + d2))"
proof -
  have b1: "48 \<le> h1 \<and> h1 \<le> 102" and b2: "48 \<le> h2 \<and> h2 \<le> 102"
    using assms hexDigit_Some_bounds by blast+
  have ws: "\<not> isStrWhiteSpace h1"
    using b1 by (auto simp: isStrWhiteSpace_def)
  have x: "h2 \<noteq> 120 \<and> h2 \<noteq> 88"
    using assms(2) by (auto simp: hexDigit_def split: if_splits)
  show ?thesis
    using assms ws b1 x by (simp add: parseInt16_def hexValue_def)
qed

text \<open>
  A triplet \<open>%XX\<close> of two hexadecimal digits resolves to the byte \<open>0xXX\<close>, and a byte
  that is not \<open>%\<close> is copied.
\<close>

lemma unescapeFrom_valid_triplet:
  assumes "hexDigit h1 = Some d1" and "hexDigit h2 = Some d2"
  shows "bufferFrom (unescapeFrom (0x25 # h1 # h2 # rest)) =
           (16 * d1 + d2) # bufferFrom (unescapeFrom rest)"
proof -
  have m: "h1 mod 128 = h1" "h2 mod 128 = h2"
    using assms hexDigit_Some_bounds [of h1 d1] hexDigit_Some_bounds [of h2 d2] by simp_all
  have d: "d1 < 16" "d2 < 16"
    using assms hexDigit_Some_bounds by blast+
  then have "(int (16 * d1 + d2)) mod 256 = int (16 * d1 + d2)"
    by simp
  then show ?thesis
    using parseInt16_two_digits [OF assms] m by (simp add: bufferFrom_def)
qed

lemma percentUnescape_literal:
  "c \<noteq> 0x25 \<Longrightarrow> c < 256 \<Longrightarrow> percentUnescape (c # cs) = c # percentUnescape cs"
  using unescapeFrom_literal [of c cs]
  by (simp add: percentUnescape_unescapeFrom bufferFrom_def)

text \<open>
  C3: a malformed escape does not always pass through unchanged.  \<open>parseInt\<close> reads
  the longest prefix of digits and accepts a sign, so \<open>%4G\<close> is not kept as the three
  bytes \<open>0x25 0x34 0x47\<close> but becomes the single byte \<open>0x04\<close>, and \<open>%-1\<close> becomes the
  byte \<open>0xFF\<close>; only an escape with no digit to read, such as \<open>%G4\<close>, is kept.
\<close>

theorem percentUnescape_malformed_escape:
  "percentUnescape (asc ''%4G'') = [0x04]
   \<and> percentUnescape (asc ''%-1'') = [0xFF]
   \<and> percentUnescape (asc ''%G4'') = asc ''%G4''"
  by (simp add: percentUnescape_unescapeFrom asc_def parseInt16_def isStrWhiteSpace_def
      hexDigit_def hexValue_def bufferFrom_def)

section \<open>Properties of the charset pass\<close>

lemma sjisLoop_exit:
  "length buffer < i \<Longrightarrow> sjisLoop L buffer sjis i d l = d"
  by (subst sjisLoop.simps) simp

lemma sjisLoop_step:
  "i \<le> length buffer \<Longrightarrow>
     sjisLoop L buffer sjis i d l =
       (case iconv_decode L (slice sjis 0 i) of
          Some decodedPart \<Rightarrow> sjisLoop L buffer sjis (i + 1) decodedPart i
        | None \<Rightarrow>
            if i > l then sjisLoop L buffer sjis (i + 1) (d @ utf8Decode (slice buffer l i)) i
            else sjisLoop L buffer sjis (i + 1) d l)"
  by (subst sjisLoop.simps) simp

text \<open>
  When the last trial decode (of the whole candidate buffer) succeeds, its result is
  the result of the loop: every earlier pass-through is overwritten.
\<close>

lemma sjisLoop_last_success:
  "i \<le> length buffer \<Longrightarrow> iconv_decode L (slice sjis 0 (length buffer)) = Some p \<Longrightarrow>
     sjisLoop L buffer sjis i d l = p"
proof (induction L buffer sjis i d l rule: sjisLoop.induct)
  case (1 L buffer sjis i d l)
  show ?case
  proof (cases "i = length buffer")
    case True
    then show ?thesis
      using "1.prems" by (simp add: sjisLoop_step sjisLoop_exit)
  next
    case False
    then have lt: "i + 1 \<le> length buffer" using "1.prems" by simp
    show ?thesis
    proof (cases "iconv_decode L (slice sjis 0 i)")
      case (Some q)
      then show ?thesis
        using "1.IH"(3) [OF "1.prems"(1) Some lt "1.prems"(2)] "1.prems"(1)
        by (simp add: sjisLoop_step)
    next
      case None
      show ?thesis
      proof (cases "i > l")
        case True
        then show ?thesis
          using "1.IH"(1) [OF "1.prems"(1) None True lt "1.prems"(2)] "1.prems"(1) None
          by (simp add: sjisLoop_step)
      next
        case False
        then show ?thesis
          using "1.IH"(2) [OF "1.prems"(1) None False lt "1.prems"(2)] "1.prems"(1) None
          by (simp add: sjisLoop_step)
      qed
    qed
  qed
qed

text \<open>
  From the second iteration on, \<open>lastDecodedIndex\<close> is \<open>i - 1\<close>: what is passed
  through at a failure is always the single byte \<open>buffer[i - 1]\<close>.  So when the last
  trial decode fails, the result ends with that one byte read as UTF-8.
\<close>

lemma sjisLoop_last_failure:
  "i \<le> length buffer \<Longrightarrow> (i = 0 \<and> l = 0) \<or> l + 1 = i \<Longrightarrow> buffer \<noteq> [] \<Longrightarrow>
     iconv_decode L (slice sjis 0 (length buffer)) = None \<Longrightarrow>
     \<exists>X. sjisLoop L buffer sjis i d l = X @ utf8Decode [last buffer]"
proof (induction L buffer sjis i d l rule: sjisLoop.induct)
  case (1 L buffer sjis i d l)
  note le = "1.prems"(1) and inv = "1.prems"(2) and ne = "1.prems"(3) and fail = "1.prems"(4)
  show ?case
  proof (cases "i = length buffer")
    case True
    then have l: "l + 1 = length buffer" and il: "i > l"
      using inv ne by auto
    have "buffer = butlast buffer @ [last buffer]"
      using ne by simp
    moreover have "length (butlast buffer) = l"
      using l by simp
    ultimately have "drop l buffer = [last buffer]"
      by (metis append_eq_conv_conj)
    then have "slice buffer l (length buffer) = [last buffer]"
      using l by (simp add: slice_def)
    then show ?thesis
      using True fail il by (simp add: sjisLoop_step sjisLoop_exit)
  next
    case False
    then have lt: "i + 1 \<le> length buffer" using le by simp
    have inv': "(i + 1 = 0 \<and> i = 0) \<or> i + 1 = i + 1" by simp
    show ?thesis
    proof (cases "iconv_decode L (slice sjis 0 i)")
      case (Some q)
      then show ?thesis
        using "1.IH"(3) [OF le Some lt inv' ne fail] le
        by (simp add: sjisLoop_step)
    next
      case None
      show ?thesis
      proof (cases "i > l")
        case True
        then show ?thesis
          using "1.IH"(1) [OF le None True lt inv' ne fail] le None
          by (simp add: sjisLoop_step)
      next
        case False
        then have "(i + 1 = 0 \<and> l = 0) \<or> l + 1 = i + 1" using inv by auto
        then show ?thesis
          using "1.IH"(2) [OF le None False lt _ ne fail] le None False
          by (simp add: sjisLoop_step)
      qed
    qed
  qed
qed
lemma slice_one: "l < length buffer \<Longrightarrow> slice buffer l (l + 1) = [buffer ! l]"
  by (simp add: slice_def take_Suc_conv_app_nth [of 0 "drop l buffer"] Cons_nth_drop_Suc [symmetric])

lemma passThrough_step:
  "l < length buffer \<Longrightarrow> passThrough buffer l = utf8Decode [buffer ! l] @ passThrough buffer (l + 1)"
  by (simp add: passThrough_def Cons_nth_drop_Suc [symmetric])

text \<open>
  When no trial decode succeeds from iteration \<open>i\<close> on, the loop appends the rest of the
  field as received, byte by byte.
\<close>

lemma sjisLoop_all_fail:
  "i \<le> length buffer + 1 \<Longrightarrow> (i = 0 \<and> l = 0) \<or> l + 1 = i \<Longrightarrow>
     (\<forall>j. i \<le> j \<and> j \<le> length buffer \<longrightarrow> iconv_decode L (slice sjis 0 j) = None) \<Longrightarrow>
     sjisLoop L buffer sjis i d l = d @ passThrough buffer l"
proof (induction L buffer sjis i d l rule: sjisLoop.induct)
  case (1 L buffer sjis i d l)
  note inv = "1.prems"(2) and fails = "1.prems"(3)
  show ?case
  proof (cases "i \<le> length buffer")
    case False
    then have "l = length buffer" using "1.prems"(1) inv by auto
    then show ?thesis using False by (simp add: sjisLoop_exit passThrough_def)
  next
    case le: True
    have none: "iconv_decode L (slice sjis 0 i) = None"
      using fails le by simp
    have fails': "\<forall>j. i + 1 \<le> j \<and> j \<le> length buffer \<longrightarrow> iconv_decode L (slice sjis 0 j) = None"
      using fails by simp
    have bound: "i + 1 \<le> length buffer + 1" using le by simp
    show ?thesis
    proof (cases "i > l")
      case True
      then have l: "l + 1 = i" "l < length buffer" using inv le by auto
      have "sjisLoop L buffer sjis (i + 1) (d @ utf8Decode (slice buffer l i)) i =
          (d @ utf8Decode (slice buffer l i)) @ passThrough buffer i"
        using "1.IH"(1) [OF le none True bound _ fails'] by simp
      moreover have "slice buffer l i = [buffer ! l]"
        using slice_one [OF l(2)] l(1) by simp
      ultimately show ?thesis
        using le none True passThrough_step [OF l(2)] l(1) by (simp add: sjisLoop_step)
    next
      case False
      then have z: "i = 0" "l = 0" using inv by auto
      have "sjisLoop L buffer sjis (i + 1) d l = d @ passThrough buffer l"
        using "1.IH"(2) [OF le none False bound _ fails'] z by simp
      then show ?thesis
        using le none False by (simp add: sjisLoop_step)
    qed
  qed
qed

text \<open>
  Up to an iteration \<open>k\<close> whose trial decode succeeds, nothing the loop has done is
  kept: the state after it is the decoded prefix and the index \<open>k\<close>.
\<close>

lemma sjisLoop_until_success:
  "i \<le> k \<Longrightarrow> k \<le> length buffer \<Longrightarrow> iconv_decode L (slice sjis 0 k) = Some p \<Longrightarrow>
     sjisLoop L buffer sjis i d l = sjisLoop L buffer sjis (k + 1) p k"
proof (induction L buffer sjis i d l rule: sjisLoop.induct)
  case (1 L buffer sjis i d l)
  note ik = "1.prems"(1) and kn = "1.prems"(2) and ok = "1.prems"(3)
  have le: "i \<le> length buffer" using ik kn by simp
  show ?case
  proof (cases "i = k")
    case True
    then show ?thesis using le ok by (simp add: sjisLoop_step)
  next
    case False
    then have lt: "i + 1 \<le> k" using ik by simp
    show ?thesis
    proof (cases "iconv_decode L (slice sjis 0 i)")
      case (Some q)
      then show ?thesis
        using "1.IH"(3) [OF le Some lt kn ok] le by (simp add: sjisLoop_step)
    next
      case None
      show ?thesis
      proof (cases "i > l")
        case True
        then show ?thesis
          using "1.IH"(1) [OF le None True lt kn ok] le None by (simp add: sjisLoop_step)
      next
        case False
        then show ?thesis
          using "1.IH"(2) [OF le None False lt kn ok] le None by (simp add: sjisLoop_step)
      qed
    qed
  qed
qed

text \<open>
  What the charset loop returns: the decoding of the longest prefix of the candidate
  buffer that \<open>iconv.decode\<close> accepts, counted in iterations of the loop, followed by the
  bytes of the field as received from that index on, each read alone as UTF-8; and only
  those bytes when no prefix is accepted.
\<close>

lemma sjisLoop_closed_form:
  assumes "k \<le> length buffer" and "iconv_decode L (slice sjis 0 k) = Some p"
    and "\<forall>j. k < j \<and> j \<le> length buffer \<longrightarrow> iconv_decode L (slice sjis 0 j) = None"
  shows "sjisLoop L buffer sjis 0 [] 0 = p @ passThrough buffer k"
proof -
  have "sjisLoop L buffer sjis 0 [] 0 = sjisLoop L buffer sjis (k + 1) p k"
    using sjisLoop_until_success [of 0 k buffer L sjis p "[]" 0] assms(1,2) by simp
  also have "\<dots> = p @ passThrough buffer k"
    using sjisLoop_all_fail [of "k + 1" buffer k L sjis p] assms(1,3) by simp
  finally show ?thesis .
qed

lemma sjisLoop_never_decodes:
  assumes "\<forall>j. j \<le> length buffer \<longrightarrow> iconv_decode L (slice sjis 0 j) = None"
  shows "sjisLoop L buffer sjis 0 [] 0 = passThrough buffer 0"
  using sjisLoop_all_fail [of 0 buffer 0 L sjis "[]"] assms by simp

lemma emoji_field_buffers:
  "bufferFromLatin1 (asc ''%83e%83X%83g'' @ [0xF0, 0x9F, 0x8E, 0x89]) =
     [37, 56, 51, 101, 37, 56, 51, 88, 37, 56, 51, 103, 0xF0, 0x9F, 0x8E, 0x89]"
  "percentUnescape [37, 56, 51, 101, 37, 56, 51, 88, 37, 56, 51, 103, 0xF0, 0x9F, 0x8E, 0x89] =
     [0x83, 0x65, 0x83, 0x58, 0x83, 0x67, 0xF0, 0x9F, 0x8E, 0x89]"
  by (simp_all add: bufferFromLatin1_def percentUnescape_unescapeFrom asc_def parseInt16_def
      isStrWhiteSpace_def hexDigit_def hexValue_def bufferFrom_def)

text \<open>
  C1: the field \<open>%83e%83X%83g\<close> followed by the raw UTF-8 bytes \<open>F0 9F 8E 89\<close> of an
  emoji.  The charset pass returns the katakana text followed by the emoji only if
  \<open>iconv.decode\<close> itself returns that for the ten unescaped bytes read as Shift_JIS;
  the loop adds nothing to it.  With a decoder that throws on the emoji bytes the text
  is kept, but what follows it is read from the field before unescaping, byte by byte:
  the characters \<open>3X%83g\<close> and four U+FFFD.
\<close>

theorem charsetPass_emoji_field:
  "(charsetPass L (asc ''%83e%83X%83g'' @ [0xF0, 0x9F, 0x8E, 0x89]) =
        [0x30C6, 0x30B9, 0x30C8, 0xD83C, 0xDF89]
      \<longleftrightarrow> iconv_decode L [0x83, 0x65, 0x83, 0x58, 0x83, 0x67, 0xF0, 0x9F, 0x8E, 0x89] =
        Some [0x30C6, 0x30B9, 0x30C8, 0xD83C, 0xDF89])
   \<and> charsetPass strictLib (asc ''%83e%83X%83g'' @ [0xF0, 0x9F, 0x8E, 0x89]) =
        [0x30C6, 0x30B9, 0x30C8] @ asc ''3X%83g'' @ [0xFFFD, 0xFFFD, 0xFFFD, 0xFFFD]"
proof
  let ?B = "[37, 56, 51, 101, 37, 56, 51, 88, 37, 56, 51, 103, 0xF0, 0x9F, 0x8E, 0x89] :: bytes"
  let ?S = "[0x83, 0x65, 0x83, 0x58, 0x83, 0x67, 0xF0, 0x9F, 0x8E, 0x89] :: bytes"
  let ?T = "[0x30C6, 0x30B9, 0x30C8, 0xD83C, 0xDF89] :: jsstring"
  have run: "charsetPass L (asc ''%83e%83X%83g'' @ [0xF0, 0x9F, 0x8E, 0x89]) = sjisLoop L ?B ?S 0 [] 0"
    for L
    by (simp only: charsetPass_def Let_def emoji_field_buffers)
  have whole: "slice ?S 0 (length ?B) = ?S"
    by (simp add: slice_def)
  show "charsetPass L (asc ''%83e%83X%83g'' @ [0xF0, 0x9F, 0x8E, 0x89]) = ?T
      \<longleftrightarrow> iconv_decode L ?S = Some ?T"
  proof (cases "iconv_decode L ?S")
    case None
    then have "iconv_decode L (slice ?S 0 (length ?B)) = None"
      by (simp only: whole)
    then obtain X where "sjisLoop L ?B ?S 0 [] 0 = X @ utf8Decode [last ?B]"
      using sjisLoop_last_failure [of 0 ?B 0 L ?S "[]"] by auto
    then have "last (sjisLoop L ?B ?S 0 [] 0) = 0xFFFD"
      by simp
    then have "sjisLoop L ?B ?S 0 [] 0 \<noteq> ?T"
      by auto
    then show ?thesis using None by (simp only: run) simp
  next
    case (Some p)
    then have "iconv_decode L (slice ?S 0 (length ?B)) = Some p"
      by (simp only: whole)
    then have "sjisLoop L ?B ?S 0 [] 0 = p"
      using sjisLoop_last_success [of 0 ?B L ?S p "[]" 0] by simp
    then show ?thesis using Some by (simp only: run) simp
  qed
  show "charsetPass strictLib (asc ''%83e%83X%83g'' @ [0xF0, 0x9F, 0x8E, 0x89]) =
        [0x30C6, 0x30B9, 0x30C8] @ asc ''3X%83g'' @ [0xFFFD, 0xFFFD, 0xFFFD, 0xFFFD]"
    by (simp only: run) (simp add: sjisLoop_step sjisLoop_exit slice_def strictLib_def asc_def)
qed

section \<open>Properties of the field splitting\<close>

lemma map_fst_setProp:
  "map fst (setProp obj k v) = (if k \<in> fst ` set obj then map fst obj else map fst obj @ [k])"
proof (induction obj)
  case Nil
  then show ?case by simp
next
  case (Cons kv obj)
  then show ?case by (cases kv) (auto simp: image_iff)
qed

lemma map_of_setProp:
  "map_of (setProp obj k v) k' = (if k' = k then Some v else map_of obj k')"
  by (induction obj) auto

lemma snd_set_setProp: "snd ` set (setProp obj k v) \<subseteq> insert v (snd ` set obj)"
proof (induction obj)
  case Nil
  then show ?case by simp
next
  case (Cons kv obj)
  then show ?case by (cases kv) (auto simp: image_iff)
qed

lemma keys_setProp: "fst ` set (setProp obj k v) = insert k (fst ` set obj)"
proof -
  have "set (map fst (setProp obj k v)) = insert k (set (map fst obj))"
    by (simp only: map_fst_setProp) auto
  then show ?thesis by simp
qed

lemma distinct_setProp:
  "distinct (map fst obj) \<Longrightarrow> distinct (map fst (setProp obj k v))"
  by (simp add: map_fst_setProp)

lemma addKeyValue_insertField:
  "parseSegment L obj seg =
     (if seg = [] then obj else insertField obj (fieldKey L seg) (fieldValue L seg))"
  by (cases "segmentKey seg = []"; cases "segmentValue seg = []")
    (simp_all add: parseSegment_def addKeyValue_def insertField_def fieldKey_def fieldValue_def
      Let_def)

lemma keys_insertField: "fst ` set (insertField obj k v) = insert k (fst ` set obj)"
  by (simp add: insertField_def keys_setProp split: option.splits qsValue.splits)

lemma goodObject_insertField:
  assumes "goodObject obj"
  shows "goodObject (insertField obj k v)"
proof -
  have d: "distinct (map fst (insertField obj k v))"
    using assms
    by (simp add: goodObject_def insertField_def distinct_setProp split: option.splits qsValue.splits)
  have "\<exists>w. insertField obj k v = setProp obj k w \<and> w \<noteq> Many []"
  proof (cases "map_of obj k")
    case None
    then show ?thesis
      by (intro exI [of _ "Single v"]) (simp add: insertField_def)
  next
    case (Some cur)
    show ?thesis
    proof (cases cur)
      case (Single c)
      then show ?thesis using Some
        by (intro exI [of _ "Many [c, v]"]) (simp add: insertField_def)
    next
      case (Many cs)
      then show ?thesis using Some
        by (intro exI [of _ "Many (cs @ [v])"]) (simp add: insertField_def)
    qed
  qed
  then obtain w where w: "insertField obj k v = setProp obj k w" "w \<noteq> Many []"
    by blast
  have "Many [] \<notin> insert w (snd ` set obj)"
    using assms w(2) by (auto simp: goodObject_def)
  then have "Many [] \<notin> snd ` set (insertField obj k v)"
    using snd_set_setProp [of obj k w] w(1) by auto
  then show ?thesis using d by (simp add: goodObject_def)
qed

lemma joinComma_snoc: "vs \<noteq> [] \<Longrightarrow> joinComma (vs @ [v]) = joinComma vs @ 44 # v"
  by (induction vs rule: joinComma.induct) auto

lemma stringAt_insertField:
  assumes "goodObject obj"
  shows "stringAt (insertField obj k v) k' =
           (if k' = k then appendComma (stringAt obj k) v else stringAt obj k')"
proof (cases "map_of obj k")
  case None
  then show ?thesis
    by (simp add: stringAt_def insertField_def map_of_setProp appendComma_def)
next
  case (Some cur)
  show ?thesis
  proof (cases cur)
    case (Single c)
    then show ?thesis using Some
      by (simp add: stringAt_def insertField_def map_of_setProp appendComma_def)
  next
    case (Many cs)
    have "(k, Many cs) \<in> set obj"
      using Some Many by (simp add: map_of_SomeD)
    then have "Many cs \<in> snd ` set obj" by force
    then have "cs \<noteq> []" using assms by (auto simp: goodObject_def)
    then show ?thesis using Some Many
      by (simp add: stringAt_def insertField_def map_of_setProp appendComma_def joinComma_snoc)
  qed
qed

text \<open>
  The object after the pieces \<open>segs\<close>: a key reads as the values of the pieces with
  that key, joined by commas in the order of the pieces.
\<close>

lemma stringAt_foldl:
  "goodObject obj \<Longrightarrow>
     stringAt (foldl (parseSegment L) obj segs) name =
       foldl appendComma (stringAt obj name)
         (map (fieldValue L) (filter (\<lambda>seg. fieldKey L seg = name) (filter (\<lambda>seg. seg \<noteq> []) segs)))
     \<and> goodObject (foldl (parseSegment L) obj segs)"
proof (induction segs arbitrary: obj)
  case Nil
  then show ?case by simp
next
  case (Cons seg segs)
  show ?case
  proof (cases "seg = []")
    case True
    then show ?thesis using Cons by (simp add: addKeyValue_insertField)
  next
    case False
    have g: "goodObject (insertField obj (fieldKey L seg) (fieldValue L seg))"
      using Cons.prems by (rule goodObject_insertField)
    show ?thesis
      using Cons.IH [OF g] False Cons.prems
      by (simp add: addKeyValue_insertField stringAt_insertField)
  qed
qed

lemma foldl_comma_assoc:
  "foldl (\<lambda>a v. a @ 44 # v) (p @ q) vs = p @ foldl (\<lambda>a v. a @ 44 # v) q vs"
  by (induction vs arbitrary: q) auto

lemma joinComma_foldl: "joinComma (v # vs) = foldl (\<lambda>a v. a @ 44 # v) v vs"
proof (induction vs arbitrary: v)
  case Nil
  then show ?case by simp
next
  case (Cons w vs)
  have "foldl (\<lambda>a v. a @ 44 # v) (v @ 44 # w) vs = v @ foldl (\<lambda>a v. a @ 44 # v) (44 # w) vs"
    by (rule foldl_comma_assoc)
  also have "\<dots> = v @ 44 # foldl (\<lambda>a v. a @ 44 # v) w vs"
    using foldl_comma_assoc [of "[44]" w vs] by simp
  finally show ?case using Cons [of w] by simp
qed

lemma foldl_appendComma_Some:
  "foldl appendComma (Some s) vs = Some (foldl (\<lambda>a v. a @ 44 # v) s vs)"
  by (induction vs arbitrary: s) (auto simp: appendComma_def)

lemma foldl_appendComma_None:
  "foldl appendComma None vs = (if vs = [] then None else Some (joinComma vs))"
proof (cases vs)
  case Nil
  then show ?thesis by simp
next
  case (Cons v ws)
  have "foldl appendComma None (v # ws) = foldl appendComma (Some v) ws"
    by (simp add: appendComma_def)
  then show ?thesis using Cons
    by (simp add: foldl_appendComma_Some joinComma_foldl)
qed

lemma goodObject_Nil: "goodObject []"
  by (simp add: goodObject_def)

lemma stringAt_querystringParse:
  "stringAt (querystringParse L body) name =
     (if fieldValues L body name = [] then None else Some (joinComma (fieldValues L body name)))"
  using stringAt_foldl [OF goodObject_Nil, of L "take maxKeys (splitOn 38 body)" name]
  by (simp add: querystringParse_def fieldValues_def fieldsRead_def stringAt_def
      foldl_appendComma_None)

lemma goodObject_querystringParse: "goodObject (querystringParse L body)"
  using stringAt_foldl [OF goodObject_Nil, of L "take maxKeys (splitOn 38 body)"]
  by (simp add: querystringParse_def)

lemma toUSVString_below: "\<forall>c \<in> set s. c < 0xD800 \<Longrightarrow> toUSVString s = s"
  by (induction s rule: toUSVString.induct) auto

lemma toUSVString_result_below:
  "\<forall>c \<in> set (toUSVString k). c < 0xD800 \<Longrightarrow> toUSVString k = k"
  by (induction k rule: toUSVString.induct) (auto split: if_splits)

lemma toUSVString_eq_name:
  "\<forall>c \<in> set name. c < 0xD800 \<Longrightarrow> toUSVString k = name \<longleftrightarrow> k = name"
  using toUSVString_below [of name] toUSVString_result_below [of k] by auto

lemma urlSearchParams_snoc:
  "urlSearchParams (obj @ [(k, v)]) =
     setProp (urlSearchParams obj) (toUSVString k) (toUSVString (stringifyValue v))"
  by (simp add: urlSearchParams_def)

lemma keys_urlSearchParams: "fst ` set (urlSearchParams obj) = toUSVString ` fst ` set obj"
proof (induction obj rule: rev_induct)
  case Nil
  then show ?case by (simp add: urlSearchParams_def)
next
  case (snoc kv obj)
  then show ?case
    by (cases kv) (simp add: urlSearchParams_snoc keys_setProp image_Un)
qed

lemma map_of_urlSearchParams:
  "distinct (map fst obj) \<Longrightarrow> \<forall>c \<in> set name. c < 0xD800 \<Longrightarrow>
     map_of (urlSearchParams obj) name = map_option toUSVString (stringAt obj name)"
proof (induction obj rule: rev_induct)
  case Nil
  then show ?case by (simp add: urlSearchParams_def stringAt_def)
next
  case (snoc kv obj)
  obtain k v where kv: "kv = (k, v)" by (cases kv)
  have d: "distinct (map fst obj)" and nk: "k \<notin> fst ` set obj"
    using snoc.prems(1) kv by auto
  have ih: "map_of (urlSearchParams obj) name = map_option toUSVString (stringAt obj name)"
    using snoc.IH [OF d snoc.prems(2)] .
  show ?case
  proof (cases "k = name")
    case True
    then have "map_of obj name = None"
      using nk by (simp add: map_of_eq_None_iff)
    then show ?thesis
      using True kv toUSVString_below [OF snoc.prems(2)]
      by (simp add: urlSearchParams_snoc map_of_setProp stringAt_def map_add_def)
  next
    case False
    then have "toUSVString k \<noteq> name"
      using toUSVString_eq_name [OF snoc.prems(2), of k] by simp
    then show ?thesis
      using False kv ih
      by (auto simp: urlSearchParams_snoc map_of_setProp stringAt_def map_add_def
          split: option.splits)
  qed
qed

lemma keys_foldl_parseSegment:
  "fst ` set (foldl (parseSegment L) obj segs) =
     fst ` set obj \<union> fieldKey L ` {seg \<in> set segs. seg \<noteq> []}"
proof (induction segs arbitrary: obj)
  case Nil
  then show ?case by simp
next
  case (Cons seg segs)
  have step: "fst ` set (parseSegment L obj seg) =
      fst ` set obj \<union> fieldKey L ` {s \<in> {seg}. s \<noteq> []}"
    by (cases "seg = []") (auto simp: addKeyValue_insertField keys_insertField)
  have "fst ` set (foldl (parseSegment L) obj (seg # segs)) =
      fst ` set (parseSegment L obj seg) \<union> fieldKey L ` {s \<in> set segs. s \<noteq> []}"
    using Cons [of "parseSegment L obj seg"] by (simp only: foldl.simps)
  then show ?case
    by (simp only: step) auto
qed

lemma splitOn_replicate: "splitOn c (replicate n c @ s) = replicate n [] @ splitOn c s"
  by (induction n) auto

lemma foldl_parseSegment_empty: "foldl (parseSegment L) obj (replicate n []) = obj"
  by (induction n) (auto simp: parseSegment_def)

lemmas run_decoder =
  decodeForm_def querystringParse_def maxKeys_def asc_def parseSegment_def addKeyValue_def
  segmentKey_def segmentValue_def plusChars_def decodeStr_def decodeURIComponentCallback_def
  charsetPass_def bufferFromLatin1_def percentUnescape_unescapeFrom bufferFrom_def
  parseInt16_def isStrWhiteSpace_def hexDigit_def hexValue_def
  sjisLoop_step sjisLoop_exit slice_def urlSearchParams_def formGet_def

text \<open>
  C4, as stated, fails: a name that occurs twice does not get the value of its last
  occurrence.  \<open>querystring.parse\<close> collects the values of a repeated key in an array
  and \<open>URLSearchParams\<close> turns the array into one string: for \<open>bbs=1&bbs=2\<close> the
  field \<open>bbs\<close> is \<open>1,2\<close>, not \<open>2\<close>.
\<close>

theorem decodeForm_repeated_joined:
  "formGet (decodeForm strictLib (asc ''bbs=1&bbs=2'')) (asc ''bbs'') = Some (asc ''1,2'')
   \<and> formGet (decodeForm strictLib (asc ''bbs=1&bbs=2'')) (asc ''bbs'') \<noteq> Some (asc ''2'')"
  by (simp add: run_decoder strictLib_def)

text \<open>
  C4, amended: the result maps a field name to a single string, and a name that occurs
  in several of the pieces read (the first 1000 pieces of the body) gets the decoded
  values of all of them, in the order of the body, joined by commas; a name that
  occurs once gets its decoded value, and a name that does not occur gets none.  This
  holds for every behaviour of the libraries and every name without surrogates, such
  as the ASCII names the handler asks for.
\<close>

theorem decodeForm_field_values:
  assumes "\<forall>c \<in> set name. c < 0xD800"
  shows "formGet (decodeForm L body) name =
           (if fieldValues L body name = [] then None
            else Some (toUSVString (joinComma (fieldValues L body name))))"
proof -
  have "distinct (map fst (querystringParse L body))"
    using goodObject_querystringParse [of L body] by (simp add: goodObject_def)
  then show ?thesis
    using map_of_urlSearchParams [OF _ assms, of "querystringParse L body"]
    by (simp add: formGet_def decodeForm_def stringAt_querystringParse)
qed

theorem decodeForm_field_values_witness:
  "fieldValues strictLib (asc ''key=%83e&bbs=1&key=a+b&key='') (asc ''key'') =
       [[0x30C6], asc ''a b'', []]
   \<and> formGet (decodeForm strictLib (asc ''key=%83e&bbs=1&key=a+b&key='')) (asc ''key'') =
       Some ([0x30C6] @ asc '',a b,'')"
proof -
  have n: "\<forall>c \<in> set (asc ''key''). c < 0xD800"
    by (simp add: asc_def)
  have v: "fieldValues strictLib (asc ''key=%83e&bbs=1&key=a+b&key='') (asc ''key'') =
       [[0x30C6], asc ''a b'', []]"
    by (simp add: fieldValues_def fieldsRead_def fieldKey_def fieldValue_def run_decoder
        strictLib_def)
  show ?thesis
    using decodeForm_field_values [OF n, of strictLib "asc ''key=%83e&bbs=1&key=a+b&key=''"]
    by (simp only: v) (simp add: asc_def)
qed

text \<open>
  C2, as stated, fails: a field can be dropped by the decoder.  \<open>querystring.parse\<close>
  stops after 1000 pieces (its default \<open>maxKeys\<close>), so the field \<open>bbs=1\<close> after 1000
  \<open>&\<close> is not in the result, while after 999 it is.
\<close>

theorem decodeForm_drops_after_maxKeys:
  "formGet (decodeForm strictLib (replicate 1000 38 @ asc ''bbs=1'')) (asc ''bbs'') = None
   \<and> formGet (decodeForm strictLib (replicate 999 38 @ asc ''bbs=1'')) (asc ''bbs'') = Some (asc ''1'')"
proof
  have "take maxKeys (splitOn 38 (replicate 1000 38 @ asc ''bbs=1'')) = replicate 1000 []"
    by (simp only: splitOn_replicate) (simp add: maxKeys_def)
  then have "querystringParse strictLib (replicate 1000 38 @ asc ''bbs=1'') = []"
    by (simp only: querystringParse_def foldl_parseSegment_empty)
  then show "formGet (decodeForm strictLib (replicate 1000 38 @ asc ''bbs=1'')) (asc ''bbs'') = None"
    by (simp add: decodeForm_def urlSearchParams_def formGet_def)
  have "take maxKeys (splitOn 38 (replicate 999 38 @ asc ''bbs=1'')) =
      replicate 999 [] @ [asc ''bbs=1'']"
    by (simp only: splitOn_replicate) (simp add: maxKeys_def asc_def)
  then have "querystringParse strictLib (replicate 999 38 @ asc ''bbs=1'') =
      parseSegment strictLib [] (asc ''bbs=1'')"
    by (simp only: querystringParse_def foldl_append foldl_parseSegment_empty) simp
  then show "formGet (decodeForm strictLib (replicate 999 38 @ asc ''bbs=1'')) (asc ''bbs'') =
      Some (asc ''1'')"
    by (simp only: decodeForm_def) (simp add: run_decoder strictLib_def)
qed

text \<open>
  C2, amended: for every body and every behaviour of the libraries, also when
  \<open>iconv.decode\<close> and \<open>he.decode\<close> throw on every call, the decoder returns a mapping,
  and every piece that is not empty among the first 1000 pieces of the body has an
  entry in it under its decoded key, whatever its bytes are.
\<close>

theorem decodeForm_every_field_read:
  assumes "seg \<in> set (take maxKeys (splitOn 38 body))" and "seg \<noteq> []"
  shows "\<exists>v. formGet (decodeForm L body) (toUSVString (fieldKey L seg)) = Some v"
proof -
  have "fieldKey L seg \<in> fst ` set (querystringParse L body)"
    using assms by (simp add: querystringParse_def keys_foldl_parseSegment)
  then have "toUSVString (fieldKey L seg) \<in> fst ` set (decodeForm L body)"
    by (simp add: decodeForm_def keys_urlSearchParams)
  then have "map_of (decodeForm L body) (toUSVString (fieldKey L seg)) \<noteq> None"
    by (simp only: map_of_eq_None_iff not_not)
  then show ?thesis
    by (auto simp: formGet_def)
qed

theorem decodeForm_every_field_read_witness:
  "asc ''%%=%'' \<in> set (take maxKeys (splitOn 38 (asc ''%%=%&a'')))
   \<and> asc ''%%=%'' \<noteq> []
   \<and> toUSVString (fieldKey throwingLib (asc ''%%=%'')) = asc ''%%''
   \<and> (\<exists>v. formGet (decodeForm throwingLib (asc ''%%=%&a'')) (asc ''%%'') = Some v)"
proof -
  have m: "asc ''%%=%'' \<in> set (take maxKeys (splitOn 38 (asc ''%%=%&a'')))"
    by (simp add: maxKeys_def asc_def)
  have ne: "asc ''%%=%'' \<noteq> []"
    by (simp add: asc_def)
  have k: "toUSVString (fieldKey throwingLib (asc ''%%=%'')) = asc ''%%''"
    by (simp add: fieldKey_def run_decoder throwingLib_def)
  show ?thesis
    using decodeForm_every_field_read [OF m ne, of throwingLib] m ne k by simp
qed

section \<open>Properties of the bbs.cgi gateway\<close>

lemma createCgiErrorResponse_no_api:
  "createCgiErrorResponse E m b None origin =
     (Some \<lparr>respStatus = 400, respHeaders = cgiHeaders, respBody = iconv_encode E (errorHtml m)\<rparr>, [])"
  by (simp add: createCgiErrorResponse_def newResponse_def cgiHeaders_def)

lemma createCgiErrorResponse_headers:
  "fst (createCgiErrorResponse E m b api origin) = Some r \<Longrightarrow> respHeaders r = cgiHeaders"
  by (auto simp: createCgiErrorResponse_def newResponse_def cgiHeaders_def Let_def
      split: if_splits)

lemma createCgiSuccessResponse_eq:
  "createCgiSuccessResponse E m b k api =
     (Some \<lparr>respStatus = 200, respHeaders = cgiHeaders,
            respBody = iconv_encode E (successHtml (redirectUrlOf b k))\<rparr>, cookieWrites E api)"
  by (simp add: createCgiSuccessResponse_def newResponse_def cgiHeaders_def)

lemma caught_eq:
  "caught E req b calls written =
     \<lparr>response = Some \<lparr>respStatus = 400, respHeaders = cgiHeaders,
                        respBody = iconv_encode E (errorHtml msgUnexpected)\<rparr>,
      backendCalls = calls, cookiesSet = written\<rparr>"
  by (simp add: caught_def createCgiErrorResponse_no_api)

lemma answersPlainly_caught: "answersPlainly (caught E req b calls written)"
  by (simp add: caught_eq answersPlainly_def)

lemma answersPlainly_respond_error:
  "answersPlainly (respond E req b calls (createCgiErrorResponse E m b' api origin))"
proof (cases "createCgiErrorResponse E m b' api origin")
  case (Pair r w)
  show ?thesis
  proof (cases r)
    case None
    then show ?thesis using Pair by (simp add: respond_def answersPlainly_caught)
  next
    case (Some x)
    then have "respHeaders x = cgiHeaders"
      using createCgiErrorResponse_headers [of E m b' api origin x] Pair by simp
    then show ?thesis using Pair Some by (simp add: respond_def answersPlainly_def)
  qed
qed

lemma answersPlainly_respond_success:
  "answersPlainly (respond E req b calls (createCgiSuccessResponse E m b' k api))"
  by (simp add: createCgiSuccessResponse_eq respond_def answersPlainly_def)

lemmas answersPlainly_exits =
  answersPlainly_caught answersPlainly_respond_error answersPlainly_respond_success

lemma answersPlainly_createThread: "answersPlainly (createThread E req b s m a)"
  by (simp add: createThread_def Let_def answersPlainly_exits split: option.splits)

lemma answersPlainly_createComment: "answersPlainly (createComment E req b k m a)"
  by (simp add: createComment_def Let_def answersPlainly_exits split: option.splits)

lemma answersPlainly_POST: "answersPlainly (POST L E req)"
  by (simp add: POST_def Let_def answersPlainly_exits answersPlainly_createThread
      answersPlainly_createComment)

lemma backendCalls_respond [simp]: "backendCalls (respond E req b calls result) = calls"
  by (cases result) (auto simp: respond_def caught_eq split: option.splits)

lemma backendCalls_caught [simp]: "backendCalls (caught E req b calls written) = calls"
  by (simp add: caught_eq)

lemma respond_no_api:
  "respond E req b calls (createCgiErrorResponse E m b' None origin) =
     \<lparr>response = Some \<lparr>respStatus = 400, respHeaders = cgiHeaders,
                        respBody = iconv_encode E (errorHtml m)\<rparr>,
      backendCalls = calls, cookiesSet = []\<rparr>"
  by (simp add: createCgiErrorResponse_no_api respond_def)

text \<open>
  C5: the responses of the gateway carry no \<open>Content-Length\<close> header.  Every run of the
  \<open>try\<close> and \<open>catch\<close> blocks of the \<open>POST\<close> handler ends with a response, and the
  only header of that response is \<open>Content-Type: text/html; charset=Shift_JIS\<close>; it
  is \<open>createSjisResponse\<close>, which the handler does not use, that sets
  \<open>Content-Length\<close> to the length of the encoded body.
\<close>

theorem gateway_response_headers:
  "(\<exists>r. response (POST L E req) = Some r
        \<and> respHeaders r = [(''Content-Type'', asc ''text/html; charset=Shift_JIS'')]
        \<and> map_of (respHeaders r) ''Content-Length'' = None)
   \<and> (\<exists>r. createSjisResponse E txt contentType 200 cookies = Some r
        \<and> map_of (respHeaders r) ''Content-Length'' = Some (decimal (length (iconv_encode E txt))))"
proof
  obtain r where r: "response (POST L E req) = Some r" "respHeaders r = cgiHeaders"
    using answersPlainly_POST [of L E req] by (auto simp: answersPlainly_def)
  then show "\<exists>r. response (POST L E req) = Some r
        \<and> respHeaders r = [(''Content-Type'', asc ''text/html; charset=Shift_JIS'')]
        \<and> map_of (respHeaders r) ''Content-Length'' = None"
    by (simp add: cgiHeaders_def)
  show "\<exists>r. createSjisResponse E txt contentType 200 cookies = Some r
        \<and> map_of (respHeaders r) ''Content-Length'' = Some (decimal (length (iconv_encode E txt)))"
    by (simp add: createSjisResponse_def newResponse_def Let_def)
qed

text \<open>
  C7: when the board id or the body is missing, or the subject and the thread key are
  both missing, the handler answers with the validation error (status 400, the error
  page with the message for the missing field) without calling the backend and without
  writing a cookie.
\<close>

theorem missing_field_rejected:
  assumes "formField L req ''bbs'' = [] \<or> formField L req ''MESSAGE'' = []
           \<or> (formField L req ''subject'' = [] \<and> formField L req ''key'' = [])"
  shows "backendCalls (POST L E req) = []
         \<and> cookiesSet (POST L E req) = []
         \<and> (\<exists>m. (m = msgMissingBoardOrBody \<or> m = msgMissingKey)
                \<and> response (POST L E req) =
                    Some \<lparr>respStatus = 400, respHeaders = cgiHeaders,
                           respBody = iconv_encode E (errorHtml m)\<rparr>)"
proof (cases "formField L req ''bbs'' = [] \<or> formField L req ''MESSAGE'' = []")
  case True
  then have "POST L E req =
      \<lparr>response = Some \<lparr>respStatus = 400, respHeaders = cgiHeaders,
                         respBody = iconv_encode E (errorHtml msgMissingBoardOrBody)\<rparr>,
       backendCalls = [], cookiesSet = []\<rparr>"
    by (auto simp: POST_def Let_def respond_no_api)
  then show ?thesis by (intro conjI exI [of _ msgMissingBoardOrBody]) simp_all
next
  case False
  then have "formField L req ''subject'' = [] \<and> formField L req ''key'' = []"
    using assms by blast
  then have "POST L E req =
      \<lparr>response = Some \<lparr>respStatus = 400, respHeaders = cgiHeaders,
                         respBody = iconv_encode E (errorHtml msgMissingKey)\<rparr>,
       backendCalls = [], cookiesSet = []\<rparr>"
    using False by (simp add: POST_def Let_def createComment_def respond_no_api)
  then show ?thesis by (intro conjI exI [of _ msgMissingKey]) simp_all
qed
lemmas run_form = formField_def requestWith_def orElse_def run_decoder strictLib_def

theorem missing_field_rejected_witness:
  "formField strictLib (requestWith (asc ''bbs=1&MESSAGE=hi'')) ''key'' = []
   \<and> backendCalls (POST strictLib acceptingEnv (requestWith (asc ''bbs=1&MESSAGE=hi''))) = []
   \<and> cookiesSet (POST strictLib acceptingEnv (requestWith (asc ''bbs=1&MESSAGE=hi''))) = []
   \<and> (\<exists>m. (m = msgMissingBoardOrBody \<or> m = msgMissingKey)
          \<and> response (POST strictLib acceptingEnv (requestWith (asc ''bbs=1&MESSAGE=hi''))) =
              Some \<lparr>respStatus = 400, respHeaders = cgiHeaders,
                     respBody = iconv_encode acceptingEnv (errorHtml m)\<rparr>)"
proof -
  have k: "formField strictLib (requestWith (asc ''bbs=1&MESSAGE=hi'')) ''key'' = []"
    by (simp add: run_form)
  have s: "formField strictLib (requestWith (asc ''bbs=1&MESSAGE=hi'')) ''subject'' = []"
    by (simp add: run_form)
  show ?thesis
    using missing_field_rejected [of strictLib "requestWith (asc ''bbs=1&MESSAGE=hi'')" acceptingEnv]
      k s
    by blast
qed




text \<open>
  What the pages hold: a success is the encoded page with the 2-second refresh to the
  thread, and a backend answer with status 401 is turned into the page that points to
  the verification page, whatever message the backend sent.
\<close>

lemma success_page_refresh:
  "createCgiSuccessResponse E m boardId threadKey api =
     (Some \<lparr>respStatus = 200, respHeaders = cgiHeaders,
            respBody = iconv_encode E (successHtml (redirectUrlOf boardId threadKey))\<rparr>,
      cookieWrites E api)
   \<and> (\<exists>before after. successHtml (redirectUrlOf boardId threadKey) =
          before @ asc ''2;URL=../read.cgi/'' @ boardId @ asc ''/'' @ threadKey @ asc ''/'' @ after)"
proof
  show "createCgiSuccessResponse E m boardId threadKey api =
     (Some \<lparr>respStatus = 200, respHeaders = cgiHeaders,
            respBody = iconv_encode E (successHtml (redirectUrlOf boardId threadKey))\<rparr>,
      cookieWrites E api)"
    by (rule createCgiSuccessResponse_eq)
  have "successHtml (redirectUrlOf boardId threadKey) =
      ([10] @ asc ''<!DOCTYPE HTML PUBLIC '' @ [34] @
       asc ''-//W3C//DTD HTML 4.01 Transitional//EN'' @ [34] @ asc ''>'' @ [10] @
       asc ''<html>'' @ [10] @ asc ''<head>'' @ [10] @ asc ''<title>'' @
       [0x66F8, 0x304D, 0x3053, 0x307F, 0x307E, 0x3057, 0x305F, 0x3002] @ asc ''</title>'' @
       [10] @ asc ''<meta http-equiv='' @ [34] @ asc ''refresh'' @ [34] @ asc '' content='' @ [34])
      @ asc ''2;URL=../read.cgi/'' @ boardId @ asc ''/'' @ threadKey @ asc ''/'' @
      ([34] @ asc ''>'' @
       [10] @ asc ''</head>'' @ [10] @ asc ''<body>'' @
       [10, 0x66F8, 0x304D, 0x3053, 0x307F, 0x307E, 0x3057, 0x305F, 0x3002] @ asc ''<br><br>'' @
       [10] @ asc ''<a href='' @ [34] @
       redirectUrlOf boardId threadKey @
       [34] @ asc '' target='' @ [34] @ asc ''_top'' @ [34] @ asc ''>'' @
       [0x753B, 0x9762, 0x3092, 0x5207, 0x308A, 0x66FF, 0x3048, 0x308B] @ asc ''</a>'' @ [10] @
       asc ''</body>'' @ [10] @ asc ''</html>'' @ [10])"
    by (simp add: successHtml_def metaRefresh_def redirectUrlOf_def asc_def)
  then show "\<exists>before after. successHtml (redirectUrlOf boardId threadKey) =
      before @ asc ''2;URL=../read.cgi/'' @ boardId @ asc ''/'' @ threadKey @ asc ''/'' @ after"
    by blast
qed

lemma unverified_page:
  "apiStatusCode api = 401 \<Longrightarrow>
     createCgiErrorResponse E m boardId (Some api) origin =
       (Some \<lparr>respStatus = 401, respHeaders = cgiHeaders,
              respBody = iconv_encode E (errorHtml (authMessage origin))\<rparr>,
        cookieWrites E api)"
  by (simp add: createCgiErrorResponse_def newResponse_def cgiHeaders_def)

section \<open>Properties of the visitor id\<close>

lemma stableValues_eq:
  "stableValues P components =
     stableValue P (components ''webgl'') @ asc '';'' @
     stableValue P (components ''canvas'') @ asc '';'' @
     stableValue P (components ''audio'')"
  by (simp add: stableValues_def STABLE_COMPONENTS_def)

lemma stableValue_cases:
  "stableValue P None = []"
  "stableValue P (Some Undefined) = []"
  "stableValue P (Some Null) = []"
  "stableValue P (Some (Object ob)) = json_stringify P ob"
  "stableValue P (Some (String s)) = s"
  "stableValue P (Some (Number n)) = (if num_falsy P n then [] else num_string P n)"
  "stableValue P (Some (Boolean b)) = (if b then asc ''true'' else [])"
  by (simp_all add: stableValue_def valueTruthy_def stringOf_def)

text \<open>
  C6: the visitor id is the hex form of the digest of one message, the strings of the
  \<open>webgl\<close>, \<open>canvas\<close> and \<open>audio\<close> components in this order with \<open>;\<close> between them, and
  of nothing else: two payloads that agree on the three components, whatever else they
  hold, get the same id.  The string of a component is the JSON text of an object value,
  the text of a string, number or boolean value, and the empty string for a component
  that is missing, has no value or has a falsy value; so a payload without one of the
  three components still gets an id, the hash of the other two strings around the
  empty placeholder.  On the server the id is the empty string.
\<close>

theorem getVisitorId_deterministic:
  assumes "\<forall>key \<in> set STABLE_COMPONENTS. c1 key = c2 key"
  shows "getVisitorId P browser c1 = getVisitorId P browser c2
         \<and> getVisitorId P True c1 =
             concat (map hexByte (sha256_digest P (text_encode P
               (stableValue P (c1 ''webgl'') @ asc '';'' @
                stableValue P (c1 ''canvas'') @ asc '';'' @
                stableValue P (c1 ''audio'')))))
         \<and> getVisitorId P False c1 = []
         \<and> stableValue P (Some (Object ob)) = json_stringify P ob
         \<and> stableValue P (Some (String s)) = s
         \<and> stableValue P (Some (Number n)) = (if num_falsy P n then [] else num_string P n)
         \<and> stableValue P (Some (Boolean b)) = (if b then asc ''true'' else [])
         \<and> stableValue P (Some Null) = []
         \<and> stableValue P None = []
         \<and> stableValue P (Some Undefined) = []
         \<and> getVisitorId P True (c1(''canvas'' := None)) =
             sha256 P (stableValue P (c1 ''webgl'') @ asc '';;'' @ stableValue P (c1 ''audio''))"
proof -
  have "stableValues P c1 = stableValues P c2"
    using assms by (simp add: stableValues_eq STABLE_COMPONENTS_def)
  then have same: "getVisitorId P browser c1 = getVisitorId P browser c2"
    by (simp add: getVisitorId_def)
  have msg: "getVisitorId P True c1 =
      concat (map hexByte (sha256_digest P (text_encode P
        (stableValue P (c1 ''webgl'') @ asc '';'' @
         stableValue P (c1 ''canvas'') @ asc '';'' @
         stableValue P (c1 ''audio'')))))"
    by (simp add: getVisitorId_def sha256_def stableValues_eq)
  have server: "getVisitorId P False c1 = []"
    by (simp add: getVisitorId_def)
  have stripped: "getVisitorId P True (c1(''canvas'' := None)) =
      sha256 P (stableValue P (c1 ''webgl'') @ asc '';;'' @ stableValue P (c1 ''audio''))"
    by (simp add: getVisitorId_def stableValues_eq stableValue_def asc_def)
  show ?thesis
    using same msg server stripped stableValue_cases [of P] by blast
qed

theorem getVisitorId_deterministic_witness:
  "getVisitorId toyPlatform True
       ((\<lambda>k. None)(''webgl'' := Some (Object (asc ''{v:1}'')),
          ''canvas'' := Some (Object (asc ''{c:2}'')), ''audio'' := Some (Number 3),
          ''fonts'' := Some (String (asc ''Arial'')))) =
     getVisitorId toyPlatform True
       ((\<lambda>k. None)(''webgl'' := Some (Object (asc ''{v:1}'')),
          ''canvas'' := Some (Object (asc ''{c:2}'')), ''audio'' := Some (Number 3)))
   \<and> getVisitorId toyPlatform True
       ((\<lambda>k. None)(''webgl'' := Some (Object (asc ''{v:1}'')),
          ''canvas'' := Some (Object (asc ''{c:2}'')), ''audio'' := Some (Number 3),
          ''fonts'' := Some (String (asc ''Arial'')))) =
     asc ''7b763a317d3b7b633a327d3b33''
   \<and> getVisitorId toyPlatform True
       (((\<lambda>k. None)(''webgl'' := Some (Object (asc ''{v:1}'')),
          ''canvas'' := Some (Object (asc ''{c:2}'')), ''audio'' := Some (Number 3),
          ''fonts'' := Some (String (asc ''Arial''))))(''canvas'' := None)) =
     asc ''7b763a317d3b3b33''"
proof -
  let ?c1 = "(\<lambda>k. None)(''webgl'' := Some (Object (asc ''{v:1}'')),
          ''canvas'' := Some (Object (asc ''{c:2}'')), ''audio'' := Some (Number (3::int)),
          ''fonts'' := Some (String (asc ''Arial'')))"
  let ?c2 = "(\<lambda>k. None)(''webgl'' := Some (Object (asc ''{v:1}'')),
          ''canvas'' := Some (Object (asc ''{c:2}'')), ''audio'' := Some (Number (3::int)))"
  have a: "\<forall>key \<in> set STABLE_COMPONENTS. ?c1 key = ?c2 key"
    by (simp add: STABLE_COMPONENTS_def)
  note t = getVisitorId_deterministic [OF a, of toyPlatform True]
  have same: "getVisitorId toyPlatform True ?c1 = getVisitorId toyPlatform True ?c2"
    using t by (rule conjunct1)
  have run: "concat (map hexByte (sha256_digest toyPlatform (text_encode toyPlatform m))) =
      concat (map hexByte (map (\<lambda>c. c mod 256) m))" for m
    by (simp add: toyPlatform_def)
  have "getVisitorId toyPlatform True ?c1 =
      concat (map hexByte (sha256_digest toyPlatform (text_encode toyPlatform
        (stableValue toyPlatform (?c1 ''webgl'') @ asc '';'' @
         stableValue toyPlatform (?c1 ''canvas'') @ asc '';'' @
         stableValue toyPlatform (?c1 ''audio'')))))"
    using t by blast
  then have v1: "getVisitorId toyPlatform True ?c1 = asc ''7b763a317d3b7b633a327d3b33''"
    by (simp only: run)
      (simp add: stableValue_cases toyPlatform_def hexByte_def hexDigitChar_def asc_def)
  have "getVisitorId toyPlatform True (?c1(''canvas'' := None)) =
      sha256 toyPlatform (stableValue toyPlatform (?c1 ''webgl'') @ asc '';;'' @
        stableValue toyPlatform (?c1 ''audio''))"
    using t by blast
  then have v2: "getVisitorId toyPlatform True (?c1(''canvas'' := None)) = asc ''7b763a317d3b3b33''"
    by (simp add: stableValue_cases sha256_def toyPlatform_def hexByte_def hexDigitChar_def
        asc_def)
  show ?thesis
    using same v1 v2 by blast
qed

section \<open>Properties of the lock table\<close>

lemma keys_upsertLock:
  "target_key ` set (upsertLock t row) = insert (target_key row) (target_key ` set t)"
  by (induction t) auto

lemma distinct_upsertLock:
  "distinct (map target_key t) \<Longrightarrow> distinct (map target_key (upsertLock t row))"
proof (induction t)
  case Nil
  then show ?case by simp
next
  case (Cons old t)
  show ?case
  proof (cases "target_key old = target_key row")
    case True
    then show ?thesis using Cons.prems by auto
  next
    case False
    then show ?thesis
      using Cons keys_upsertLock [of t row] by auto
  qed
qed

lemma reachable_distinct: "reachable t \<Longrightarrow> distinct (map target_key t)"
proof (induction rule: reachable.induct)
  case empty
  then show ?case by simp
next
  case (insert t row t')
  then show ?case by (auto simp: insertLock_def split: if_splits)
next
  case (upsert t row)
  then show ?case by (simp add: distinct_upsertLock)
next
  case (delete t k)
  then show ?case by (simp add: deleteLock_def distinct_map_filter)
next
  case (expire t now)
  then show ?case by (simp add: deleteExpired_def distinct_map_filter)
next
  case (cascade t rid)
  then show ?case by (simp add: deleteLocksOfRule_def distinct_map_filter)
qed

lemma distinct_at_most_one:
  "distinct (map target_key t) \<Longrightarrow> length (filter (\<lambda>r. target_key r = k) t) \<le> 1"
proof (induction t)
  case Nil
  then show ?case by simp
next
  case (Cons r t)
  show ?case
  proof (cases "target_key r = k")
    case True
    then have "k \<notin> target_key ` set t" using Cons.prems by auto
    then have "filter (\<lambda>r. target_key r = k) t = []"
      by (auto simp: filter_empty_conv)
    then show ?thesis using True by simp
  next
    case False
    then show ?thesis using Cons by simp
  qed
qed

lemma lockOf_upsertLock:
  "\<exists>kept. lockOf (upsertLock t row) (target_key row) = Some kept
     \<and> expires_at kept =
         (case lockOf t (target_key row) of
            None \<Rightarrow> expires_at row
          | Some old \<Rightarrow> max (expires_at old) (expires_at row))"
  by (induction t) (auto simp: lockOf_def max_def)

text \<open>
  C8: in every reachable state of the lock table the target keys of the rows are
  pairwise different, so a key has at most one lock, whatever statements simultaneous
  requests have issued; and creating a lock for a key that has one keeps a single row,
  with the later of the two expiries.
\<close>

theorem lock_per_key_unique:
  assumes "reachable t"
  shows "distinct (map target_key t)
         \<and> length (filter (\<lambda>r. target_key r = k) t) \<le> 1
         \<and> length (filter (\<lambda>r. target_key r = target_key row) (upsertLock t row)) = 1
         \<and> (\<exists>kept. lockOf (upsertLock t row) (target_key row) = Some kept
               \<and> expires_at kept =
                   (case lockOf t (target_key row) of
                      None \<Rightarrow> expires_at row
                    | Some old \<Rightarrow> max (expires_at old) (expires_at row)))"
proof -
  have d: "distinct (map target_key t)"
    using assms by (rule reachable_distinct)
  have "reachable (upsertLock t row)"
    using assms by (rule reachable.upsert)
  then have "length (filter (\<lambda>r. target_key r = target_key row) (upsertLock t row)) \<le> 1"
    using reachable_distinct distinct_at_most_one by blast
  moreover have "target_key row \<in> target_key ` set (upsertLock t row)"
    by (simp add: keys_upsertLock)
  then have "filter (\<lambda>r. target_key r = target_key row) (upsertLock t row) \<noteq> []"
    by (auto simp: filter_empty_conv)
  ultimately have one: "length (filter (\<lambda>r. target_key r = target_key row) (upsertLock t row)) = 1"
    by (cases "filter (\<lambda>r. target_key r = target_key row) (upsertLock t row)") auto
  show ?thesis
    using d distinct_at_most_one [OF d, of k] one lockOf_upsertLock [of t row] by blast
qed

theorem lock_per_key_unique_witness:
  "reachable (upsertLock [\<lparr>target_key = asc ''ip:1'', rule_id = 1, expires_at = 100\<rparr>]
                \<lparr>target_key = asc ''ip:1'', rule_id = 2, expires_at = 50\<rparr>)
   \<and> upsertLock (upsertLock [\<lparr>target_key = asc ''ip:1'', rule_id = 1, expires_at = 100\<rparr>]
                \<lparr>target_key = asc ''ip:1'', rule_id = 2, expires_at = 50\<rparr>)
        \<lparr>target_key = asc ''ip:1'', rule_id = 1, expires_at = 400\<rparr> =
       [\<lparr>target_key = asc ''ip:1'', rule_id = 1, expires_at = 400\<rparr>]
   \<and> length (filter (\<lambda>r. target_key r = asc ''ip:1'')
        (upsertLock (upsertLock [\<lparr>target_key = asc ''ip:1'', rule_id = 1, expires_at = 100\<rparr>]
                \<lparr>target_key = asc ''ip:1'', rule_id = 2, expires_at = 50\<rparr>)
        \<lparr>target_key = asc ''ip:1'', rule_id = 1, expires_at = 400\<rparr>)) = 1"
proof -
  let ?a = "\<lparr>target_key = asc ''ip:1'', rule_id = 1, expires_at = 100\<rparr>"
  let ?b = "\<lparr>target_key = asc ''ip:1'', rule_id = 2, expires_at = 50\<rparr>"
  let ?c = "\<lparr>target_key = asc ''ip:1'', rule_id = 1, expires_at = 400\<rparr>"
  have "reachable (upsertLock [] ?a)"
    using reachable.empty by (rule reachable.upsert)
  then have r1: "reachable [?a]" by simp
  then have r2: "reachable (upsertLock [?a] ?b)" by (rule reachable.upsert)
  have e: "upsertLock (upsertLock [?a] ?b) ?c = [?c]"
    by simp
  have "length (filter (\<lambda>r. target_key r = target_key ?c) (upsertLock (upsertLock [?a] ?b) ?c)) = 1"
    using lock_per_key_unique [OF r2, of "[]" ?c] by blast
  then show ?thesis using r2 e by simp
qed

end
